theory Spec2Isabelle
  imports Complex_Main
begin

section \<open>The batch accumulator (src/batch.js)\<close>

text \<open>
  The class \<^verbatim>\<open>BatchAccumulator\<close> keeps its fields in one object and hands array objects
  to the injected callback \<^verbatim>\<open>onFlush\<close> by reference. JavaScript runs each synchronous
  stretch of code to completion, so the model is a state machine whose steps are those
  stretches: a call of \<^verbatim>\<open>add\<close>, the part of \<^verbatim>\<open>flush\<close> up to its \<^verbatim>\<open>await\<close>, the part of
  \<^verbatim>\<open>flush\<close> after the awaited promise has settled, a firing of the interval timer, and
  \<^verbatim>\<open>stop\<close>.

  Arrays live in an explicit heap: \<^verbatim>\<open>this.batch\<close> is an address, \<^verbatim>\<open>push\<close> writes the
  heap at that address, and \<^verbatim>\<open>this.batch = []\<close> allocates a fresh address. The
  callback is the environment: what the model records of it is the list of its
  invocations (the addresses it was given) and, per suspended \<^verbatim>\<open>flush\<close>, the address it
  is waiting for. How the returned promise settles is an input of the step that resumes
  \<^verbatim>\<open>flush\<close>. A callback that throws before returning a promise takes the same
  \<^verbatim>\<open>catch\<close>/\<^verbatim>\<open>finally\<close> path as a rejected promise.
\<close>

type_synonym addr = nat
type_synonym handle = nat

datatype js_error = Error string

datatype settled = Fulfilled | Rejected js_error

record batch_config =
  batchSize :: int
  flushInterval :: int
  maxBatchSizeBytes :: int

record 'r world =
  heap :: "addr \<Rightarrow> 'r list"
  nextAddr :: addr
  intervals :: "handle set"
  nextHandle :: handle
  config :: batch_config
  batch :: addr
  currentSizeBytes :: nat
  timer :: "handle option"
  flushing :: bool
  pending :: "addr list"
  onFlushCalls :: "addr list"
  consoleErrors :: "js_error list"

text \<open>
  \<open>heap\<close>, \<open>nextAddr\<close>: the array objects and the next fresh one.
  \<open>intervals\<close>, \<open>nextHandle\<close>: the interval timers the runtime will still fire.
  \<open>config\<close>, \<open>batch\<close>, \<open>currentSizeBytes\<close>, \<open>timer\<close>, \<open>flushing\<close>: the fields of the
  instance (\<open>timer = None\<close> is \<^verbatim>\<open>null\<close>).
  \<open>pending\<close>: one entry per activation of \<^verbatim>\<open>flush\<close> suspended at
  \<^verbatim>\<open>await this.onFlush(batchToFlush)\<close>, holding its \<^verbatim>\<open>batchToFlush\<close>.
  \<open>onFlushCalls\<close>: the arguments of the calls of \<^verbatim>\<open>onFlush\<close> so far, oldest first.
  \<open>consoleErrors\<close>: the errors passed to \<^verbatim>\<open>console.error\<close> so far.
\<close>

definition buffer :: "'r world \<Rightarrow> 'r list" where
  "buffer s = heap s (batch s)"

definition delivered :: "'r world \<Rightarrow> 'r list list" where
  "delivered s = map (heap s) (onFlushCalls s)"

text \<open>
  \<^verbatim>\<open>startTimer\<close>: clears a timer that is set, then sets a new interval.
  \<^verbatim>\<open>unref\<close> has no effect on the fields.
\<close>

definition startTimer :: "'r world \<Rightarrow> 'r world" where
  "startTimer s =
     (let s1 = (case timer s of
                  Some h \<Rightarrow> s\<lparr>intervals := intervals s - {h}\<rparr>
                | None \<Rightarrow> s);
          h' = nextHandle s1
      in s1\<lparr>timer := Some h', intervals := insert h' (intervals s1), nextHandle := Suc h'\<rparr>)"

definition new_BatchAccumulator :: "batch_config \<Rightarrow> 'r world" where
  "new_BatchAccumulator cfg =
     startTimer
       \<lparr>heap = (\<lambda>_. []), nextAddr = 1, intervals = {}, nextHandle = 0,
        config = cfg, batch = 0, currentSizeBytes = 0, timer = None, flushing = False,
        pending = [], onFlushCalls = [], consoleErrors = []\<rparr>"

text \<open>
  \<^verbatim>\<open>estimateLogSize\<close> is \<^verbatim>\<open>JSON.stringify(log).length\<close>. The serialiser is the
  runtime's; it is the parameter \<open>stringify\<close>, total on the records the accumulator
  is given (flat objects of strings and numbers).
\<close>

definition estimateLogSize :: "('r \<Rightarrow> string) \<Rightarrow> 'r \<Rightarrow> nat" where
  "estimateLogSize stringify entry = length (stringify entry)"

text \<open>
  \<^verbatim>\<open>needsFlush\<close>: \<^verbatim>\<open>currentSizeBytes >= maxBatchSizeBytes * 0.8\<close>. Byte counts are whole
  numbers; for whole numbers below \<open>2^50\<close> the comparison in double precision and the
  exact one agree, so the product is taken in the reals.
\<close>

definition needsFlush :: "'r world \<Rightarrow> bool" where
  "needsFlush s =
     (let threshold = real_of_int (maxBatchSizeBytes (config s)) * 0.8
      in real (currentSizeBytes s) \<ge> threshold)"

definition add :: "('r \<Rightarrow> string) \<Rightarrow> 'r \<Rightarrow> 'r world \<Rightarrow> bool \<times> 'r world" where
  "add stringify entry s =
     (let s1 = s\<lparr>heap := (heap s)(batch s := heap s (batch s) @ [entry])\<rparr>;
          s2 = s1\<lparr>currentSizeBytes := currentSizeBytes s1 + estimateLogSize stringify entry\<rparr>
      in (needsFlush s2, s2))"

definition estimatedSizeBytes :: "'r world \<Rightarrow> nat" where
  "estimatedSizeBytes s = currentSizeBytes s"

definition size_batch :: "'r world \<Rightarrow> nat" where
  "size_batch s = length (heap s (batch s))"

text \<open>
  \<^verbatim>\<open>flush\<close> up to its \<^verbatim>\<open>await\<close>. The result says how the caller finds the returned
  promise: \<open>Resolved\<close> when the guard returned at once, \<open>AwaitingDeliver a\<close> when the
  activation is suspended on \<^verbatim>\<open>onFlush\<close> called with the array \<open>a\<close>.
\<close>

datatype flush_promise = Resolved | AwaitingDeliver addr

definition swap_batch :: "'r world \<Rightarrow> addr \<times> 'r world" where
  "swap_batch s =
     (let batchToFlush = batch s;
          s1 = s\<lparr>batch := nextAddr s, heap := (heap s)(nextAddr s := []),
                 nextAddr := Suc (nextAddr s)\<rparr>;
          s2 = s1\<lparr>currentSizeBytes := 0\<rparr>
      in (batchToFlush, s2))"

definition call_onFlush :: "addr \<Rightarrow> 'r world \<Rightarrow> 'r world" where
  "call_onFlush a s = s\<lparr>onFlushCalls := onFlushCalls s @ [a], pending := pending s @ [a]\<rparr>"

definition flush :: "'r world \<Rightarrow> flush_promise \<times> 'r world" where
  "flush s =
     (if flushing s \<or> length (heap s (batch s)) = 0 then (Resolved, s)
      else
        (let s1 = s\<lparr>flushing := True\<rparr>;
             (batchToFlush, s2) = swap_batch s1
         in (AwaitingDeliver batchToFlush, call_onFlush batchToFlush s2)))"

text \<open>
  \<^verbatim>\<open>flush\<close> after the promise of \<^verbatim>\<open>onFlush\<close> has settled: the \<^verbatim>\<open>catch\<close> logs a
  rejection, the \<^verbatim>\<open>finally\<close> clears the flag, and the promise of \<^verbatim>\<open>flush\<close> itself
  settles with the first component.
\<close>

definition flush_resume :: "addr \<Rightarrow> settled \<Rightarrow> 'r world \<Rightarrow> settled \<times> 'r world" where
  "flush_resume a outcome s =
     (let (r, s1) = (case outcome of
                       Fulfilled \<Rightarrow> (Fulfilled, s)
                     | Rejected error \<Rightarrow>
                         (Fulfilled, s\<lparr>consoleErrors := consoleErrors s @ [error]\<rparr>));
          s2 = s1\<lparr>flushing := False\<rparr>
      in (r, s2\<lparr>pending := remove1 a (pending s2)\<rparr>))"

text \<open>
  \<^verbatim>\<open>stop\<close> up to its \<^verbatim>\<open>await this.flush()\<close>: the promise of \<^verbatim>\<open>stop\<close> settles when the
  one of that \<^verbatim>\<open>flush\<close> does, so the result is the promise of the \<^verbatim>\<open>flush\<close>.
\<close>

definition stop :: "'r world \<Rightarrow> flush_promise \<times> 'r world" where
  "stop s =
     (let s1 = (case timer s of
                  Some h \<Rightarrow> s\<lparr>intervals := intervals s - {h}, timer := None\<rparr>
                | None \<Rightarrow> s)
      in flush s1)"

text \<open>
  What can happen to an accumulator: its owner calls \<^verbatim>\<open>add\<close>, \<^verbatim>\<open>flush\<close> or \<^verbatim>\<open>stop\<close>,
  the runtime fires an interval that has not been cleared (the timer's callback awaits
  \<^verbatim>\<open>this.flush()\<close>), or the promise a suspended \<^verbatim>\<open>flush\<close> awaits settles.
\<close>

datatype 'r event = Add 'r | Flush | Tick handle | Stop | Settle addr settled

fun step :: "('r \<Rightarrow> string) \<Rightarrow> 'r event \<Rightarrow> 'r world \<Rightarrow> 'r world" where
  "step stringify (Add entry) s = snd (add stringify entry s)"
| "step stringify Flush s = snd (flush s)"
| "step stringify (Tick h) s = (if h \<in> intervals s then snd (flush s) else s)"
| "step stringify Stop s = snd (stop s)"
| "step stringify (Settle a outcome) s =
     (if a \<in> set (pending s) then snd (flush_resume a outcome s) else s)"

fun run :: "('r \<Rightarrow> string) \<Rightarrow> 'r event list \<Rightarrow> 'r world \<Rightarrow> 'r world" where
  "run stringify [] s = s"
| "run stringify (e # es) s = run stringify es (step stringify e s)"

text \<open>
  The records an event list adds, in order.
\<close>

fun added :: "'r event list \<Rightarrow> 'r list" where
  "added [] = []"
| "added (Add entry # es) = entry # added es"
| "added (e # es) = added es"

text \<open>
  Schedules made of calls of \<^verbatim>\<open>flush\<close> and of settlements only.
\<close>

fun flush_or_settle :: "'r event \<Rightarrow> bool" where
  "flush_or_settle Flush = True"
| "flush_or_settle (Settle a outcome) = True"
| "flush_or_settle e = False"

text \<open>
  A caller that awaits a promise of \<^verbatim>\<open>flush\<close> or \<^verbatim>\<open>stop\<close> resumes once the promise has
  settled: at once for \<open>Resolved\<close>, after the suspended \<^verbatim>\<open>flush\<close> has resumed otherwise.
  \<open>await_flush\<close> is the state the caller resumes in when nothing else happens in between
  and the callback's promise settles with \<open>outcome\<close>.
\<close>

definition await_flush :: "settled \<Rightarrow> flush_promise \<times> 'r world \<Rightarrow> 'r world" where
  "await_flush outcome ps =
     (case ps of
        (Resolved, s) \<Rightarrow> s
      | (AwaitingDeliver a, s) \<Rightarrow> snd (flush_resume a outcome s))"

text \<open>
  One cycle of the tests of \<^verbatim>\<open>test/batch.test.js\<close>: add some records, then
  \<^verbatim>\<open>await flush()\<close>, here with a callback that rejects with \<open>err\<close>.
\<close>

definition rejected_cycle ::
  "('r \<Rightarrow> string) \<Rightarrow> 'r list \<times> js_error \<Rightarrow> 'r world \<Rightarrow> 'r world" where
  "rejected_cycle stringify c s =
     await_flush (Rejected (snd c)) (flush (run stringify (map Add (fst c)) s))"

text \<open>
  The properties every reachable state has: the live buffer and the arrays handed to
  \<^verbatim>\<open>onFlush\<close> are allocated and different objects, at most one \<^verbatim>\<open>flush\<close> is suspended and
  \<^verbatim>\<open>flushing\<close> says whether one is, the byte counter is the sum over the live buffer, and
  the only interval is the one in \<^verbatim>\<open>this.timer\<close>.
\<close>

definition inv :: "('r \<Rightarrow> string) \<Rightarrow> 'r world \<Rightarrow> bool" where
  "inv stringify s \<longleftrightarrow>
     batch s < nextAddr s \<and>
     (\<forall>a \<in> set (onFlushCalls s). a < nextAddr s \<and> a \<noteq> batch s) \<and>
     distinct (onFlushCalls s) \<and>
     set (pending s) \<subseteq> set (onFlushCalls s) \<and>
     length (pending s) \<le> 1 \<and>
     (flushing s \<longleftrightarrow> pending s \<noteq> []) \<and>
     currentSizeBytes s = sum_list (map (estimateLogSize stringify) (heap s (batch s))) \<and>
     intervals s = set_option (timer s)"

section \<open>The transform (src/transform.js)\<close>

text \<open>
  A log line parsed by \<^verbatim>\<open>JSON.parse\<close> is \<^verbatim>\<open>null\<close> or a value whose properties can be
  read; \<open>Object\<close> holds the properties \<^verbatim>\<open>transformLog\<close> reads, \<open>None\<close> for one that is
  missing. A message is \<^verbatim>\<open>undefined\<close>, \<^verbatim>\<open>null\<close>, a string, an object (held as the text
  \<^verbatim>\<open>JSON.stringify\<close> gives for it) or another primitive (held as the text \<^verbatim>\<open>String\<close>
  gives for it).

  The level is used as a property key of the object \<^verbatim>\<open>LEVEL_TO_SEVERITY\<close>, so what
  matters of it is the string JavaScript converts it to: \<^verbatim>\<open>"undefined"\<close> for a missing
  level, the decimal digits for a whole number, the string itself for a string.
  \<open>LevelKey\<close> holds a string level, and any other value (a fraction, a boolean,
  \<^verbatim>\<open>null\<close>, an array, an object) as the key it converts to.
\<close>

datatype level_value = LevelMissing | LevelNumber int | LevelKey string

datatype msg_value =
  MsgUndefined | MsgNull | MsgString string | MsgObject string | MsgOther string

record pinoLog =
  time :: "real option"
  level :: level_value
  msg :: msg_value
  hostname :: "string option"
  category :: "string option"
  className :: "string option"
  methodName :: "string option"
  threadId :: "string option"

datatype parsed = Null | Object pinoLog

text \<open>
  The configuration of the transport, after the defaults have been merged in: the fields
  of the accumulator's configuration and the ones \<^verbatim>\<open>transformLog\<close> reads.
\<close>

record transport_config = batch_config +
  applicationName :: string
  subsystemName :: string
  computerName :: "string option"

text \<open>
  What reading a property of \<^verbatim>\<open>LEVEL_TO_SEVERITY\<close> can give: \<^verbatim>\<open>undefined\<close>, a number of
  the table, or a member the object inherits from \<^verbatim>\<open>Object.prototype\<close> (a function, or
  the prototype itself for \<^verbatim>\<open>__proto__\<close>), held by its name. The \<^verbatim>\<open>severity\<close> of the
  result is such a value.
\<close>

datatype js_value = Undefined | Number int | Inherited string

record coralogixLog =
  timestamp :: "real option"
  applicationName :: string
  subsystemName :: string
  severity :: js_value
  log_text :: string
  computerName :: "string option"
  category :: "string option"
  className :: "string option"
  methodName :: "string option"
  threadId :: "string option"

text \<open>
  The decimal digits of a whole number, as \<^verbatim>\<open>String\<close> writes it (below \<open>10^21\<close>; from
  there on JavaScript writes an exponent, which is no key of the table and no inherited
  name either).
\<close>

definition digit_char :: "nat \<Rightarrow> char" where
  "digit_char d = ''0123456789'' ! d"

fun decimal_nat :: "nat \<Rightarrow> string" where
  "decimal_nat n =
     (if n < 10 then [digit_char n] else decimal_nat (n div 10) @ [digit_char (n mod 10)])"

definition decimal :: "int \<Rightarrow> string" where
  "decimal i = (if i < 0 then CHR ''-'' # decimal_nat (nat (- i)) else decimal_nat (nat i))"

definition to_property_key :: "level_value \<Rightarrow> string" where
  "to_property_key v =
     (case v of
        LevelMissing \<Rightarrow> ''undefined''
      | LevelNumber n \<Rightarrow> decimal n
      | LevelKey k \<Rightarrow> k)"

text \<open>
  \<^verbatim>\<open>LEVEL_TO_SEVERITY\<close> is an object literal: its own properties are the six of the
  table, under the keys \<^verbatim>\<open>"10"\<close> to \<^verbatim>\<open>"60"\<close>, and a key it does not own is looked up in
  \<^verbatim>\<open>Object.prototype\<close>, whose members are the runtime's.
\<close>

definition LEVEL_TO_SEVERITY :: "string \<rightharpoonup> int" where
  "LEVEL_TO_SEVERITY =
     [''10'' \<mapsto> 1, ''20'' \<mapsto> 2, ''30'' \<mapsto> 3, ''40'' \<mapsto> 4, ''50'' \<mapsto> 5, ''60'' \<mapsto> 6]"

definition Object_prototype :: "string list" where
  "Object_prototype =
     [''constructor'', ''__defineGetter__'', ''__defineSetter__'', ''hasOwnProperty'',
      ''__lookupGetter__'', ''__lookupSetter__'', ''isPrototypeOf'', ''propertyIsEnumerable'',
      ''toString'', ''valueOf'', ''__proto__'', ''toLocaleString'']"

definition get_property :: "string \<Rightarrow> js_value" where
  "get_property key =
     (case LEVEL_TO_SEVERITY key of
        Some v \<Rightarrow> Number v
      | None \<Rightarrow> if key \<in> set Object_prototype then Inherited key else Undefined)"

fun formatMessage :: "msg_value \<Rightarrow> string" where
  "formatMessage MsgUndefined = []"
| "formatMessage MsgNull = []"
| "formatMessage (MsgString s) = s"
| "formatMessage (MsgObject json) = json"
| "formatMessage (MsgOther str) = str"

text \<open>
  Truthiness of an optional string property: present and not empty.
  \<^verbatim>\<open>v || 3\<close> is \<open>v\<close> when \<open>v\<close> is truthy (a number other than \<open>0\<close>, a function, an
  object) and \<open>3\<close> otherwise; \<open>severity_of\<close> is
  \<^verbatim>\<open>LEVEL_TO_SEVERITY[pinoLog.level] || 3\<close>.
\<close>

definition truthy :: "string option \<Rightarrow> bool" where
  "truthy v = (case v of None \<Rightarrow> False | Some s \<Rightarrow> s \<noteq> [])"

definition or_3 :: "js_value \<Rightarrow> js_value" where
  "or_3 v =
     (case v of
        Undefined \<Rightarrow> Number 3
      | Number n \<Rightarrow> if n \<noteq> 0 then Number n else Number 3
      | Inherited m \<Rightarrow> Inherited m)"

definition severity_of :: "level_value \<Rightarrow> js_value" where
  "severity_of lvl = or_3 (get_property (to_property_key lvl))"

definition transformLog :: "parsed \<Rightarrow> 'a transport_config_scheme \<Rightarrow> js_error + coralogixLog" where
  "transformLog obj cfg =
     (case obj of
        Null \<Rightarrow> Inl (Error ''TypeError: Cannot read properties of null'')
      | Object pl \<Rightarrow>
          (let c0 = \<lparr>timestamp = time pl,
                     applicationName = transport_config.applicationName cfg,
                     subsystemName = transport_config.subsystemName cfg,
                     severity = severity_of (level pl),
                     log_text = formatMessage (msg pl),
                     computerName = None, category = None, className = None,
                     methodName = None, threadId = None\<rparr>;
               c1 = (if truthy (transport_config.computerName cfg)
                     then c0\<lparr>computerName := transport_config.computerName cfg\<rparr>
                     else if truthy (hostname pl)
                     then c0\<lparr>computerName := hostname pl\<rparr>
                     else c0);
               c2 = (if truthy (pinoLog.category pl)
                     then c1\<lparr>category := pinoLog.category pl\<rparr> else c1);
               c3 = (if truthy (pinoLog.className pl)
                     then c2\<lparr>className := pinoLog.className pl\<rparr> else c2);
               c4 = (if truthy (pinoLog.methodName pl)
                     then c3\<lparr>methodName := pinoLog.methodName pl\<rparr> else c3);
               c5 = (if truthy (pinoLog.threadId pl)
                     then c4\<lparr>threadId := pinoLog.threadId pl\<rparr> else c4)
           in Inr c5))"

section \<open>The ingestion loop (src/index.js)\<close>

text \<open>
  One turn of the \<^verbatim>\<open>for await\<close> loop of \<^verbatim>\<open>buildTransport\<close>, up to the point where it
  awaits or takes the next item. An item is a line still to be parsed or a value already
  parsed. \<^verbatim>\<open>JSON.parse\<close> is the runtime's and is the parameter \<open>JSON_parse\<close>. The outcome
  says what the turn did: it skipped a line that did not parse, it threw (which leaves the
  loop for its \<^verbatim>\<open>finally\<close>), it added the record and went on, or it added the record
  and called \<^verbatim>\<open>flush\<close>, whose promise it awaits.
\<close>

datatype source_item = Line string | Parsed parsed

datatype loop_outcome = Skipped | Threw js_error | NotFlushed | FlushCalled flush_promise

definition loop_body ::
  "(string \<Rightarrow> js_error + parsed) \<Rightarrow> (coralogixLog \<Rightarrow> string) \<Rightarrow> 'a transport_config_scheme \<Rightarrow>
   source_item \<Rightarrow> coralogixLog world \<Rightarrow> loop_outcome \<times> coralogixLog world" where
  "loop_body JSON_parse stringify cfg item s =
     (case (case item of Line l \<Rightarrow> JSON_parse l | Parsed v \<Rightarrow> Inr v) of
        Inl err \<Rightarrow> (Skipped, s\<lparr>consoleErrors := consoleErrors s @ [err]\<rparr>)
      | Inr obj \<Rightarrow>
          (case transformLog obj cfg of
             Inl err \<Rightarrow> (Threw err, s)
           | Inr coralogixLog \<Rightarrow>
               (let (needsFlush, s1) = add stringify coralogixLog s
                in if needsFlush \<and> int (size_batch s1) \<ge> batchSize cfg
                   then (let (p, s2) = flush s1 in (FlushCalled p, s2))
                   else (NotFlushed, s1))))"

section \<open>Sample inputs\<close>

text \<open>
  The configuration of \<^verbatim>\<open>test/batch.test.js\<close>, and a sample serialiser for records that
  are numbers: \<open>n\<close> is written as \<open>n\<close> characters.
\<close>

definition test_config :: batch_config where
  "test_config = \<lparr>batchSize = 3, flushInterval = 100, maxBatchSizeBytes = 1024\<rparr>"

definition unary :: "nat \<Rightarrow> string" where
  "unary n = replicate n (CHR ''x'')"

text \<open>
  A configuration of the transport with the thresholds of the tests, a pino log of a given
  level whose message has a given number of characters, and a line that is not JSON for
  the sample parser.
\<close>

definition sample_config :: transport_config where
  "sample_config =
     \<lparr>batchSize = 3, flushInterval = 100, maxBatchSizeBytes = 1024,
      transport_config.applicationName = ''test-app'',
      transport_config.subsystemName = ''test-subsystem'',
      transport_config.computerName = Some ''test-server''\<rparr>"

definition sample_log :: "nat \<Rightarrow> level_value \<Rightarrow> pinoLog" where
  "sample_log n lvl =
     \<lparr>time = Some 1675148539123, level = lvl, msg = MsgString (replicate n (CHR ''x'')),
      hostname = None, pinoLog.category = None, pinoLog.className = None,
      pinoLog.methodName = None, pinoLog.threadId = None\<rparr>"

definition sample_parse :: "string \<Rightarrow> js_error + parsed" where
  "sample_parse l =
     (if l = ''null'' then Inr Null else Inl (Error ''SyntaxError: Unexpected token''))"

section \<open>Reachable states\<close>

lemmas eval_defs =
  new_BatchAccumulator_def startTimer_def add_def flush_def swap_batch_def call_onFlush_def
  flush_resume_def stop_def needsFlush_def estimateLogSize_def buffer_def delivered_def
  size_batch_def await_flush_def test_config_def unary_def Let_def

lemma inv_new: "inv stringify (new_BatchAccumulator cfg)"
  by (simp add: inv_def new_BatchAccumulator_def startTimer_def)

lemma inv_add: "inv stringify s \<Longrightarrow> inv stringify (snd (add stringify entry s))"
  by (simp add: inv_def add_def Let_def)

lemma inv_flush: "inv stringify s \<Longrightarrow> inv stringify (snd (flush s))"
  by (auto simp add: inv_def flush_def swap_batch_def call_onFlush_def Let_def)

lemma inv_stop: "inv stringify s \<Longrightarrow> inv stringify (snd (stop s))"
  by (auto simp add: inv_def stop_def flush_def swap_batch_def call_onFlush_def Let_def split: option.splits)

lemma inv_resume: "inv stringify s \<Longrightarrow> a \<in> set (pending s) \<Longrightarrow> inv stringify (snd (flush_resume a outcome s))"
  apply (cases "pending s")
  apply (auto simp add: inv_def flush_resume_def Let_def split: settled.splits)
  done

lemma inv_step: "inv stringify s \<Longrightarrow> inv stringify (step stringify e s)"
  by (cases e) (simp_all add: inv_add inv_flush inv_stop inv_resume)

lemma inv_run: "inv stringify s \<Longrightarrow> inv stringify (run stringify es s)"
  by (induction es arbitrary: s) (simp_all add: inv_step)

lemma inv_reachable: "inv stringify (run stringify es (new_BatchAccumulator cfg))"
  by (simp add: inv_run inv_new)

lemma flush_noop: "flushing s \<or> heap s (batch s) = [] \<Longrightarrow> flush s = (Resolved, s)"
  by (auto simp: flush_def)

lemma flush_proceeds:
  "\<not> flushing s \<Longrightarrow> heap s (batch s) \<noteq> [] \<Longrightarrow>
   flush s = (AwaitingDeliver (batch s),
              s\<lparr>flushing := True, batch := nextAddr s, heap := (heap s)(nextAddr s := []),
                nextAddr := Suc (nextAddr s), currentSizeBytes := 0,
                onFlushCalls := onFlushCalls s @ [batch s], pending := pending s @ [batch s]\<rparr>)"
  by (simp add: flush_def swap_batch_def call_onFlush_def Let_def)

lemma run_append: "run stringify (es @ fs) s = run stringify fs (run stringify es s)"
  by (induction es arbitrary: s) simp_all

lemma run_adds:
  "run stringify (map Add rs) s =
     s\<lparr>heap := (heap s)(batch s := heap s (batch s) @ rs),
       currentSizeBytes := currentSizeBytes s + sum_list (map (estimateLogSize stringify) rs)\<rparr>"
  by (induction rs arbitrary: s) (simp_all add: add_def Let_def)

lemma step_heap_frame:
  "inv stringify s \<Longrightarrow> a \<in> set (onFlushCalls s) \<Longrightarrow> heap (step stringify e s) a = heap s a"
  by (cases e) (auto simp: inv_def add_def flush_def swap_batch_def call_onFlush_def stop_def flush_resume_def Let_def split: option.splits settled.splits)

lemma step_calls_mono:
  "set (onFlushCalls s) \<subseteq> set (onFlushCalls (step stringify e s))"
  by (cases e) (auto simp: add_def flush_def swap_batch_def call_onFlush_def stop_def flush_resume_def Let_def split: option.splits settled.splits)

lemma run_heap_frame:
  "inv stringify s \<Longrightarrow> a \<in> set (onFlushCalls s) \<Longrightarrow> heap (run stringify es s) a = heap s a"
proof (induction es arbitrary: s)
  case Nil
  then show ?case by simp
next
  case (Cons e es)
  have "a \<in> set (onFlushCalls (step stringify e s))"
    using Cons.prems(2) step_calls_mono by blast
  then have "heap (run stringify es (step stringify e s)) a = heap (step stringify e s) a"
    using Cons.IH Cons.prems(1) inv_step by blast
  then show ?case
    using Cons.prems step_heap_frame by fastforce
qed


lemma empty_buffer_schedule:
  "heap s (batch s) = [] \<Longrightarrow> list_all flush_or_settle sched \<Longrightarrow>
   onFlushCalls (run stringify sched s) = onFlushCalls s \<and>
   heap (run stringify sched s) = heap s \<and>
   batch (run stringify sched s) = batch s"
proof (induction sched arbitrary: s)
  case Nil
  then show ?case by simp
next
  case (Cons e sched)
  from Cons.prems(2) have e: "flush_or_settle e" and rest: "list_all flush_or_settle sched"
    by simp_all
  have st: "onFlushCalls (step stringify e s) = onFlushCalls s \<and>
            heap (step stringify e s) = heap s \<and> batch (step stringify e s) = batch s"
    using e Cons.prems(1)
    by (cases e) (simp_all add: flush_noop flush_resume_def Let_def split: settled.splits)
  then have "heap (step stringify e s) (batch (step stringify e s)) = []"
    using Cons.prems(1) by simp
  from Cons.IH[OF this rest] st show ?case by simp
qed

lemma idle_schedule:
  "inv stringify s \<Longrightarrow> \<not> flushing s \<Longrightarrow> heap s (batch s) \<noteq> [] \<Longrightarrow>
   list_all flush_or_settle sched \<Longrightarrow> Flush \<in> set sched \<Longrightarrow>
   onFlushCalls (run stringify sched s) = onFlushCalls s @ [batch s] \<and>
   heap (run stringify sched s) = (heap s)(nextAddr s := []) \<and>
   batch (run stringify sched s) = nextAddr s"
proof (induction sched)
  case Nil
  then show ?case by simp
next
  case (Cons e sched)
  from Cons.prems(4) have e: "flush_or_settle e" and rest: "list_all flush_or_settle sched"
    by simp_all
  from Cons.prems(1,2) have nopend: "pending s = []"
    by (simp add: inv_def)
  show ?case
  proof (cases e)
    case Flush
    let ?s1 = "snd (flush s)"
    have s1: "flush s = (AwaitingDeliver (batch s),
              s\<lparr>flushing := True, batch := nextAddr s, heap := (heap s)(nextAddr s := []),
                nextAddr := Suc (nextAddr s), currentSizeBytes := 0,
                onFlushCalls := onFlushCalls s @ [batch s], pending := pending s @ [batch s]\<rparr>)"
      using Cons.prems(2,3) by (rule flush_proceeds)
    have "heap ?s1 (batch ?s1) = []"
      by (simp add: s1)
    from empty_buffer_schedule[OF this rest, of stringify] show ?thesis
      using Flush by (simp add: s1)
  next
    case (Settle a outcome)
    then have same: "step stringify e s = s"
      using nopend by simp
    have "Flush \<in> set sched"
      using Cons.prems(5) Settle by auto
    with Cons.IH Cons.prems(1,2,3) rest same show ?thesis by simp
  qed (use e in simp_all)
qed

lemma delivered_after_flush:
  "inv stringify s \<Longrightarrow>
   map ((heap s)(nextAddr s := [])) (onFlushCalls s @ [batch s]) = delivered s @ [buffer s]"
  by (auto simp: inv_def delivered_def buffer_def)


lemma added_map_Add: "added (map Add rs) = rs"
  by (induction rs) simp_all

lemma step_calls_cases:
  "onFlushCalls (step stringify e s) = onFlushCalls s \<or>
   onFlushCalls (step stringify e s) = onFlushCalls s @ [batch s]"
  by (cases e)
     (auto simp: add_def flush_def swap_batch_def call_onFlush_def stop_def flush_resume_def
        Let_def split: option.splits settled.splits)

lemma run_calls_length:
  "length (onFlushCalls s) \<le> length (onFlushCalls (run stringify es s))"
proof (induction es arbitrary: s)
  case Nil
  then show ?case by simp
next
  case (Cons e es)
  have "length (onFlushCalls s) \<le> length (onFlushCalls (step stringify e s))"
    using step_calls_cases[of stringify e s] by auto
  also have "\<dots> \<le> length (onFlushCalls (run stringify es (step stringify e s)))"
    by (rule Cons.IH)
  finally show ?case by simp
qed

lemma step_without_flush:
  "onFlushCalls (step stringify e s) = onFlushCalls s \<Longrightarrow>
   batch (step stringify e s) = batch s \<and>
   heap (step stringify e s) = (heap s)(batch s := heap s (batch s) @ added [e]) \<and>
   currentSizeBytes (step stringify e s) =
     currentSizeBytes s + sum_list (map (estimateLogSize stringify) (added [e])) \<and>
   config (step stringify e s) = config s"
  by (cases e)
     (auto simp: add_def flush_def swap_batch_def call_onFlush_def stop_def flush_resume_def
        Let_def split: option.splits settled.splits if_splits)

lemma added_Cons: "added (e # es) = added [e] @ added es"
  by (cases e) simp_all

lemma run_without_flush:
  "onFlushCalls (run stringify es s) = onFlushCalls s \<Longrightarrow>
   batch (run stringify es s) = batch s \<and>
   heap (run stringify es s) = (heap s)(batch s := heap s (batch s) @ added es) \<and>
   currentSizeBytes (run stringify es s) =
     currentSizeBytes s + sum_list (map (estimateLogSize stringify) (added es)) \<and>
   config (run stringify es s) = config s"
proof (induction es arbitrary: s)
  case Nil
  then show ?case by simp
next
  case (Cons e es)
  let ?t = "step stringify e s"
  have "length (onFlushCalls ?t) \<le> length (onFlushCalls (run stringify es ?t))"
    by (rule run_calls_length)
  with Cons.prems have "length (onFlushCalls ?t) \<le> length (onFlushCalls s)"
    by simp
  with step_calls_cases[of stringify e s] have same: "onFlushCalls ?t = onFlushCalls s"
    by auto
  note st = step_without_flush[OF same]
  have "onFlushCalls (run stringify es ?t) = onFlushCalls ?t"
    using Cons.prems same by simp
  note ih = Cons.IH[OF this]
  have b: "batch (run stringify (e # es) s) = batch s"
    using ih st by simp
  have h: "heap (run stringify (e # es) s) = (heap s)(batch s := heap s (batch s) @ added (e # es))"
    using ih st by (simp add: added_Cons[of e es] fun_eq_iff)
  have c: "currentSizeBytes (run stringify (e # es) s) =
     currentSizeBytes s + sum_list (map (estimateLogSize stringify) (added (e # es)))"
    using ih st by (simp add: added_Cons[of e es])
  have g: "config (run stringify (e # es) s) = config s"
    using ih st by simp
  from b h c g show ?case by blast
qed


lemma stop_idle:
  "inv stringify s \<Longrightarrow> \<not> flushing s \<Longrightarrow> heap s (batch s) \<noteq> [] \<Longrightarrow>
   stop s = (AwaitingDeliver (batch s),
             s\<lparr>flushing := True, batch := nextAddr s, heap := (heap s)(nextAddr s := []),
               nextAddr := Suc (nextAddr s), currentSizeBytes := 0,
               onFlushCalls := onFlushCalls s @ [batch s], pending := pending s @ [batch s],
               timer := None, intervals := {}\<rparr>)"
  by (auto simp: stop_def flush_def swap_batch_def call_onFlush_def inv_def Let_def
        split: option.splits)

lemma stop_without_timer: "timer s = None \<Longrightarrow> stop s = flush s"
  by (simp add: stop_def)

lemma step_timer_None: "timer s = None \<Longrightarrow> timer (step stringify e s) = None"
  by (cases e)
     (auto simp: add_def flush_def swap_batch_def call_onFlush_def stop_def flush_resume_def
        Let_def split: option.splits settled.splits)

lemma run_timer_None: "timer s = None \<Longrightarrow> timer (run stringify es s) = None"
  by (induction es arbitrary: s) (simp_all add: step_timer_None)

lemma stop_timer_None: "timer (snd (stop s)) = None"
  by (auto simp: stop_def flush_def swap_batch_def call_onFlush_def Let_def split: option.splits)

lemma stop_buffer_empty: "\<not> flushing s \<Longrightarrow> heap (snd (stop s)) (batch (snd (stop s))) = []"
  by (auto simp: stop_def flush_def swap_batch_def call_onFlush_def Let_def split: option.splits)

lemma step_keeps_empty:
  "heap s (batch s) = [] \<Longrightarrow> added [e] = [] \<Longrightarrow>
   heap (step stringify e s) (batch (step stringify e s)) = []"
  by (cases e)
     (auto simp: flush_def stop_def flush_resume_def Let_def split: option.splits settled.splits)

lemma run_keeps_empty:
  "heap s (batch s) = [] \<Longrightarrow> added es = [] \<Longrightarrow>
   heap (run stringify es s) (batch (run stringify es s)) = []"
proof (induction es arbitrary: s)
  case Nil
  then show ?case by simp
next
  case (Cons e es)
  from Cons.prems(2) have e: "added [e] = []" and es: "added es = []"
    using added_Cons[of e es] by simp_all
  from Cons.IH[OF step_keeps_empty[OF Cons.prems(1) e] es] show ?case
    by simp
qed

lemma rejected_cycle_step:
  assumes i: "inv stringify s" and idle: "\<not> flushing s"
    and empty: "heap s (batch s) = []" and ne: "fst c \<noteq> []"
  shows "inv stringify (rejected_cycle stringify c s) \<and>
         \<not> flushing (rejected_cycle stringify c s) \<and>
         heap (rejected_cycle stringify c s) (batch (rejected_cycle stringify c s)) = [] \<and>
         delivered (rejected_cycle stringify c s) = delivered s @ [fst c] \<and>
         consoleErrors (rejected_cycle stringify c s) = consoleErrors s @ [snd c]"
proof -
  let ?s1 = "run stringify (map Add (fst c)) s"
  have i1: "inv stringify ?s1"
    using i by (rule inv_run)
  have idle1: "\<not> flushing ?s1" and ne1: "heap ?s1 (batch ?s1) \<noteq> []"
    and buf1: "buffer ?s1 = fst c"
    using idle empty ne by (simp_all add: run_adds buffer_def)
  have calls1: "onFlushCalls ?s1 = onFlushCalls s"
    by (simp add: run_adds)
  have "map (heap ?s1) (onFlushCalls s) = map (heap s) (onFlushCalls s)"
    using i by (intro map_cong) (auto simp: run_adds inv_def)
  then have del1: "delivered ?s1 = delivered s"
    by (simp add: delivered_def calls1)
  note fl = flush_proceeds[OF idle1 ne1]
  let ?s2 = "snd (flush ?s1)"
  have i2: "inv stringify ?s2"
    using i1 by (rule inv_flush)
  have pend: "pending ?s1 = []"
    using i1 idle1 by (simp add: inv_def)
  have mem: "batch ?s1 \<in> set (pending ?s2)"
    by (simp add: fl)
  have rc: "rejected_cycle stringify c s = snd (flush_resume (batch ?s1) (Rejected (snd c)) ?s2)"
    by (simp add: rejected_cycle_def await_flush_def fl)
  have r1: "inv stringify (rejected_cycle stringify c s)"
    unfolding rc using i2 mem by (rule inv_resume)
  have r2: "\<not> flushing (rejected_cycle stringify c s)"
    by (simp add: rc flush_resume_def Let_def)
  have r3: "heap (rejected_cycle stringify c s) (batch (rejected_cycle stringify c s)) = []"
    by (simp add: rc flush_resume_def Let_def fl)
  have "delivered (rejected_cycle stringify c s) =
        map ((heap ?s1)(nextAddr ?s1 := [])) (onFlushCalls ?s1 @ [batch ?s1])"
    by (simp add: rc flush_resume_def Let_def fl delivered_def)
  also have "\<dots> = delivered ?s1 @ [buffer ?s1]"
    using i1 by (rule delivered_after_flush)
  finally have r4: "delivered (rejected_cycle stringify c s) = delivered s @ [fst c]"
    by (simp add: del1 buf1)
  have errs1: "consoleErrors ?s1 = consoleErrors s"
    by (simp add: run_adds)
  have r5: "consoleErrors (rejected_cycle stringify c s) = consoleErrors s @ [snd c]"
    by (simp add: rc flush_resume_def Let_def fl errs1)
  from r1 r2 r3 r4 r5 show ?thesis by blast
qed

lemma rejected_cycles:
  "inv stringify s \<Longrightarrow> \<not> flushing s \<Longrightarrow> heap s (batch s) = [] \<Longrightarrow>
   \<forall>c \<in> set cycles. fst c \<noteq> [] \<Longrightarrow>
   \<not> flushing (fold (rejected_cycle stringify) cycles s) \<and>
   heap (fold (rejected_cycle stringify) cycles s)
     (batch (fold (rejected_cycle stringify) cycles s)) = [] \<and>
   delivered (fold (rejected_cycle stringify) cycles s) = delivered s @ map fst cycles \<and>
   consoleErrors (fold (rejected_cycle stringify) cycles s) = consoleErrors s @ map snd cycles"
proof (induction cycles arbitrary: s)
  case Nil
  then show ?case by simp
next
  case (Cons c cycles)
  have ne: "fst c \<noteq> []" and rest: "\<forall>c \<in> set cycles. fst c \<noteq> []"
    using Cons.prems(4) by simp_all
  note st = rejected_cycle_step[OF Cons.prems(1,2,3) ne]
  from st have a: "inv stringify (rejected_cycle stringify c s)"
    and b: "\<not> flushing (rejected_cycle stringify c s)"
    and e: "heap (rejected_cycle stringify c s) (batch (rejected_cycle stringify c s)) = []"
    by blast+
  from Cons.IH[OF a b e rest] st show ?case
    by simp
qed

lemma run_calls_prefix:
  "\<exists>xs. onFlushCalls (run stringify es s) = onFlushCalls s @ xs"
proof (induction es arbitrary: s)
  case Nil
  then show ?case by simp
next
  case (Cons e es)
  obtain xs where xs: "onFlushCalls (run stringify es (step stringify e s)) =
      onFlushCalls (step stringify e s) @ xs"
    using Cons.IH by blast
  from step_calls_cases[of stringify e s] xs show ?case
    by auto
qed

lemma no_flush_prefix:
  assumes "onFlushCalls (run stringify (es @ fs) s) = onFlushCalls s"
  shows "onFlushCalls (run stringify es s) = onFlushCalls s"
proof -
  obtain xs where xs: "onFlushCalls (run stringify es s) = onFlushCalls s @ xs"
    using run_calls_prefix by blast
  have "length (onFlushCalls (run stringify es s)) \<le>
        length (onFlushCalls (run stringify fs (run stringify es s)))"
    by (rule run_calls_length)
  with assms have "length (onFlushCalls (run stringify es s)) \<le> length (onFlushCalls s)"
    by (simp add: run_append)
  with xs show ?thesis by simp
qed

declare decimal_nat.simps [simp del]

lemma digit_value: "d < 10 \<Longrightarrow> of_char (digit_char d) = 48 + d"
proof -
  assume "d < 10"
  then have "d \<in> {0, 1, 2, 3, 4, 5, 6, 7, 8, 9}"
    by auto
  then show ?thesis
    by (auto simp: digit_char_def)
qed

lemma digit_in: "d < 10 \<Longrightarrow> digit_char d \<in> set ''0123456789''"
  unfolding digit_char_def by (rule nth_mem) simp

lemma decimal_nat_chars: "set (decimal_nat n) \<subseteq> set ''0123456789''"
proof (induction n rule: decimal_nat.induct)
  case (1 n)
  show ?case
  proof (cases "n < 10")
    case True
    then show ?thesis
      using digit_in[of n] by (subst decimal_nat.simps) simp
  next
    case False
    have "n mod 10 < 10"
      by simp
    with False 1 digit_in[of "n mod 10"] show ?thesis
      by (subst decimal_nat.simps) simp
  qed
qed

lemma decimal_nat_value:
  "foldl (\<lambda>a c. 10 * a + (of_char c - 48)) 0 (decimal_nat n) = n"
proof (induction n rule: decimal_nat.induct)
  case (1 n)
  show ?case
  proof (cases "n < 10")
    case True
    then show ?thesis
      by (subst decimal_nat.simps) (simp add: digit_value)
  next
    case False
    have "n mod 10 < 10"
      by simp
    with False 1 show ?thesis
      by (subst decimal_nat.simps) (simp add: digit_value)
  qed
qed

lemma decimal_nat_inj: "decimal_nat n = decimal_nat m \<longleftrightarrow> n = m"
  using decimal_nat_value by metis

lemma decimal_nat_table:
  "decimal_nat n = ''10'' \<longleftrightarrow> n = 10"
  "decimal_nat n = ''20'' \<longleftrightarrow> n = 20"
  "decimal_nat n = ''30'' \<longleftrightarrow> n = 30"
  "decimal_nat n = ''40'' \<longleftrightarrow> n = 40"
  "decimal_nat n = ''50'' \<longleftrightarrow> n = 50"
  "decimal_nat n = ''60'' \<longleftrightarrow> n = 60"
proof -
  have k: "decimal_nat 10 = ''10''" "decimal_nat 20 = ''20''" "decimal_nat 30 = ''30''"
    "decimal_nat 40 = ''40''" "decimal_nat 50 = ''50''" "decimal_nat 60 = ''60''"
    by (simp_all add: digit_char_def decimal_nat.simps)
  show "decimal_nat n = ''10'' \<longleftrightarrow> n = 10"
    using decimal_nat_inj[of n 10] by (simp only: k)
  show "decimal_nat n = ''20'' \<longleftrightarrow> n = 20"
    using decimal_nat_inj[of n 20] by (simp only: k)
  show "decimal_nat n = ''30'' \<longleftrightarrow> n = 30"
    using decimal_nat_inj[of n 30] by (simp only: k)
  show "decimal_nat n = ''40'' \<longleftrightarrow> n = 40"
    using decimal_nat_inj[of n 40] by (simp only: k)
  show "decimal_nat n = ''50'' \<longleftrightarrow> n = 50"
    using decimal_nat_inj[of n 50] by (simp only: k)
  show "decimal_nat n = ''60'' \<longleftrightarrow> n = 60"
    using decimal_nat_inj[of n 60] by (simp only: k)
qed

lemma decimal_chars: "set (decimal i) \<subseteq> set ''-0123456789''"
proof -
  have grow: "set xs \<subseteq> set ds \<Longrightarrow> set xs \<subseteq> set (c # ds)" for xs ds :: string and c
    by auto
  have both: "set xs \<subseteq> set ds \<Longrightarrow> set (c # xs) \<subseteq> set (c # ds)" for xs ds :: string and c
    by auto
  show ?thesis
  proof (cases "i < 0")
    case True
    then have "decimal i = CHR ''-'' # decimal_nat (nat (- i))"
      by (simp add: decimal_def)
    with both[OF decimal_nat_chars[of "nat (- i)"], of "CHR ''-''"] show ?thesis
      by (simp only:)
  next
    case False
    then have "decimal i = decimal_nat (nat i)"
      by (simp add: decimal_def)
    with grow[OF decimal_nat_chars[of "nat i"], of "CHR ''-''"] show ?thesis
      by (simp only:)
  qed
qed

lemma inherited_letter:
  "name \<in> set Object_prototype \<Longrightarrow> CHR ''o'' \<in> set name \<or> CHR ''e'' \<in> set name"
  by (auto simp: Object_prototype_def)

lemma decimal_not_inherited: "decimal i \<notin> set Object_prototype"
proof
  assume "decimal i \<in> set Object_prototype"
  then have "CHR ''o'' \<in> set (decimal i) \<or> CHR ''e'' \<in> set (decimal i)"
    by (rule inherited_letter)
  with decimal_chars[of i]
  have "CHR ''o'' \<in> set ''-0123456789'' \<or> CHR ''e'' \<in> set ''-0123456789''"
    by blast
  then show False
    by simp
qed

lemma decimal_nat_nonempty: "decimal_nat n \<noteq> []"
  by (subst decimal_nat.simps) simp

text \<open>
  What \<^verbatim>\<open>LEVEL_TO_SEVERITY[pinoLog.level] || 3\<close> gives: the table for a whole number, \<open>3\<close>
  for a missing level, and for a key the table for \<^verbatim>\<open>"10"\<close> to \<^verbatim>\<open>"60"\<close>, the inherited
  member for a name of \<^verbatim>\<open>Object.prototype\<close>, and \<open>3\<close> for any other.
\<close>

lemma severity_of_number:
  "severity_of (LevelNumber n) =
     Number (if n = 10 then 1 else if n = 20 then 2 else if n = 30 then 3
             else if n = 40 then 4 else if n = 50 then 5 else if n = 60 then 6 else 3)"
proof (cases "n < 0")
  case True
  then have "LEVEL_TO_SEVERITY (decimal n) = None"
    by (simp add: decimal_def LEVEL_TO_SEVERITY_def)
  with True decimal_not_inherited[of n] show ?thesis
    by (simp add: severity_of_def or_3_def get_property_def to_property_key_def)
next
  case False
  then have d: "decimal n = decimal_nat (nat n)"
    by (simp add: decimal_def)
  have t: "LEVEL_TO_SEVERITY (decimal_nat (nat n)) =
      (if n = 10 then Some 1 else if n = 20 then Some 2 else if n = 30 then Some 3
       else if n = 40 then Some 4 else if n = 50 then Some 5 else if n = 60 then Some 6
       else None)"
    using False by (auto simp: LEVEL_TO_SEVERITY_def decimal_nat_table)
  from decimal_not_inherited[of n] d have "decimal_nat (nat n) \<notin> set Object_prototype"
    by simp
  then show ?thesis
    by (simp add: severity_of_def or_3_def get_property_def to_property_key_def d t)
qed

lemma severity_of_missing: "severity_of LevelMissing = Number 3"
  by (simp add: severity_of_def or_3_def get_property_def to_property_key_def
      LEVEL_TO_SEVERITY_def Object_prototype_def)

lemma severity_of_key:
  "severity_of (LevelKey k) =
     (if k \<in> set Object_prototype then Inherited k
      else Number (if k = ''10'' then 1 else if k = ''20'' then 2 else if k = ''30'' then 3
                   else if k = ''40'' then 4 else if k = ''50'' then 5
                   else if k = ''60'' then 6 else 3))"
  by (auto simp: severity_of_def or_3_def get_property_def to_property_key_def
      LEVEL_TO_SEVERITY_def Object_prototype_def)

lemma transformLog_object:
  "\<exists>w. transformLog (Object pl) cfg = Inr w \<and> severity w = severity_of (level pl)"
  by (simp add: transformLog_def Let_def)

lemma loop_body_policy:
  assumes "(case item of Line l \<Rightarrow> JSON_parse l | Parsed v \<Rightarrow> Inr v) = Inr obj"
    and "transformLog obj cfg = Inr entry"
    and "s1 = snd (add stringify entry s)"
  shows "((\<exists>p. fst (loop_body JSON_parse stringify cfg item s) = FlushCalled p) \<longleftrightarrow>
            fst (add stringify entry s) \<and> batchSize cfg \<le> int (size_batch s1)) \<and>
         (fst (add stringify entry s) \<and> batchSize cfg \<le> int (size_batch s1) \<longrightarrow>
            loop_body JSON_parse stringify cfg item s = (FlushCalled (fst (flush s1)), snd (flush s1))) \<and>
         (int (size_batch s1) < batchSize cfg \<longrightarrow>
            loop_body JSON_parse stringify cfg item s = (NotFlushed, s1) \<and>
            onFlushCalls s1 = onFlushCalls s \<and> buffer s1 = buffer s @ [entry]) \<and>
         (\<not> flushing s1 \<and> h \<in> intervals s1 \<longrightarrow>
            onFlushCalls (step stringify (Tick h) s1) = onFlushCalls s1 @ [batch s1]) \<and>
         (\<not> flushing s1 \<longrightarrow>
            onFlushCalls (step stringify Stop s1) = onFlushCalls s1 @ [batch s1])"
proof -
  obtain nf where a: "add stringify entry s = (nf, s1)"
    using assms(3) by (cases "add stringify entry s") simp
  have body: "loop_body JSON_parse stringify cfg item s =
      (if nf \<and> batchSize cfg \<le> int (size_batch s1)
       then (FlushCalled (fst (flush s1)), snd (flush s1)) else (NotFlushed, s1))"
    using assms(1,2) a by (simp add: loop_body_def Let_def split_beta)
  have p1: "(\<exists>p. fst (loop_body JSON_parse stringify cfg item s) = FlushCalled p) \<longleftrightarrow>
            fst (add stringify entry s) \<and> batchSize cfg \<le> int (size_batch s1)"
    by (simp add: body a)
  have p2: "fst (add stringify entry s) \<and> batchSize cfg \<le> int (size_batch s1) \<longrightarrow>
            loop_body JSON_parse stringify cfg item s = (FlushCalled (fst (flush s1)), snd (flush s1))"
    by (simp add: body a)
  have p3: "int (size_batch s1) < batchSize cfg \<longrightarrow>
            loop_body JSON_parse stringify cfg item s = (NotFlushed, s1) \<and>
            onFlushCalls s1 = onFlushCalls s \<and> buffer s1 = buffer s @ [entry]"
    by (simp add: body assms(3) add_def Let_def buffer_def)
  have ne: "heap s1 (batch s1) \<noteq> []"
    by (simp add: assms(3) add_def Let_def)
  have p4: "\<not> flushing s1 \<and> h \<in> intervals s1 \<longrightarrow>
            onFlushCalls (step stringify (Tick h) s1) = onFlushCalls s1 @ [batch s1]"
    using ne by (simp add: flush_proceeds)
  have p5: "\<not> flushing s1 \<longrightarrow>
            onFlushCalls (step stringify Stop s1) = onFlushCalls s1 @ [batch s1]"
    using ne
    by (auto simp: stop_def flush_def swap_batch_def call_onFlush_def Let_def split: option.splits)
  from p1 p2 p3 p4 p5 show ?thesis by blast
qed

section \<open>Exclusive flush\<close>

text \<open>
  Claim C1. In every reachable state at most one \<^verbatim>\<open>flush\<close> is suspended on the callback.
  A call of \<^verbatim>\<open>flush\<close> made while \<^verbatim>\<open>flushing\<close> is set or the buffer is empty returns a
  resolved promise and leaves the whole state as it was: no call of \<^verbatim>\<open>onFlush\<close>, the same
  buffer, byte counter and flag. So, from a state with no flush in flight and a non-empty
  buffer, every schedule of calls of \<^verbatim>\<open>flush\<close> and settlements that holds at least one
  call invokes \<^verbatim>\<open>onFlush\<close> exactly once, with the buffered records, and leaves the buffer
  empty.
\<close>
theorem exclusive_flush:
  assumes "s = run stringify es (new_BatchAccumulator cfg)"
  shows "length (pending s) \<le> 1 \<and>
         (flushing s \<or> buffer s = [] \<longrightarrow> flush s = (Resolved, s)) \<and>
         (\<not> flushing s \<and> buffer s \<noteq> [] \<and> list_all flush_or_settle sched \<and> Flush \<in> set sched \<longrightarrow>
            length (onFlushCalls (run stringify sched s)) = length (onFlushCalls s) + 1 \<and>
            delivered (run stringify sched s) = delivered s @ [buffer s] \<and>
            buffer (run stringify sched s) = [])"
proof -
  have i: "inv stringify s"
    using assms by (simp add: inv_reachable)
  have one: "length (pending s) \<le> 1"
    using i by (simp add: inv_def)
  have noop: "flushing s \<or> buffer s = [] \<longrightarrow> flush s = (Resolved, s)"
    by (simp add: buffer_def flush_noop)
  have once: "length (onFlushCalls (run stringify sched s)) = length (onFlushCalls s) + 1 \<and>
            delivered (run stringify sched s) = delivered s @ [buffer s] \<and>
            buffer (run stringify sched s) = []"
    if h: "\<not> flushing s" "buffer s \<noteq> []" "list_all flush_or_settle sched" "Flush \<in> set sched"
  proof -
    from h(2) have ne: "heap s (batch s) \<noteq> []"
      by (simp add: buffer_def)
    note r = idle_schedule[OF i h(1) ne h(3) h(4)]
    have d: "delivered (run stringify sched s) = delivered s @ [buffer s]"
      using r delivered_after_flush[OF i] by (simp add: delivered_def)
    have b: "buffer (run stringify sched s) = []"
      using r by (simp add: buffer_def)
    from r d b show ?thesis by simp
  qed
  from one noop once show ?thesis by blast
qed



theorem exclusive_flush_witness:
  "\<not> flushing (run unary [Add 5] (new_BatchAccumulator test_config)) \<and>
   buffer (run unary [Add 5] (new_BatchAccumulator test_config)) = [5] \<and>
   list_all flush_or_settle [Flush, Flush, Flush, Settle 0 Fulfilled :: nat event] \<and>
   length (onFlushCalls (run unary [Flush, Flush, Flush, Settle 0 Fulfilled]
      (run unary [Add 5] (new_BatchAccumulator test_config)))) = 1 \<and>
   delivered (run unary [Flush, Flush, Flush, Settle 0 Fulfilled]
      (run unary [Add 5] (new_BatchAccumulator test_config))) = [[5]]"
proof -
  let ?s = "run unary [Add 5] (new_BatchAccumulator test_config)"
  let ?sched = "[Flush, Flush, Flush, Settle 0 Fulfilled] :: nat event list"
  have h: "\<not> flushing ?s" "buffer ?s = [5]" "list_all flush_or_settle ?sched"
    "Flush \<in> set ?sched" "onFlushCalls ?s = []" "delivered ?s = []"
    by (simp_all add: eval_defs)
  from exclusive_flush[OF refl, of unary "[Add 5]" test_config ?sched] h
  have "length (onFlushCalls (run unary ?sched ?s)) = 1 \<and>
        delivered (run unary ?sched ?s) = [[5]]"
    by simp
  with h show ?thesis by simp
qed
section \<open>Swap before delivery\<close>

text \<open>
  Claim C2. When \<^verbatim>\<open>flush\<close> passes its guard, it first replaces the live buffer by a fresh
  empty array and sets the byte counter to \<open>0\<close> (the state \<open>swapped\<close>, in which
  \<^verbatim>\<open>onFlush\<close> has not been called yet) and only then calls \<^verbatim>\<open>onFlush\<close>, with the array
  that held the whole previous buffer. Records added while the delivery is in flight land
  in the fresh buffer, and nothing that happens later changes the array that was handed
  over.
\<close>
theorem swap_before_deliver:
  assumes "s = run stringify es (new_BatchAccumulator cfg)"
    and "\<not> flushing s" and "buffer s \<noteq> []"
    and "swapped = snd (swap_batch (s\<lparr>flushing := True\<rparr>))"
    and "s' = snd (flush s)"
  shows "fst (flush s) = AwaitingDeliver (batch s) \<and>
         s' = call_onFlush (batch s) swapped \<and>
         buffer swapped = [] \<and> currentSizeBytes swapped = 0 \<and>
         onFlushCalls swapped = onFlushCalls s \<and>
         onFlushCalls s' = onFlushCalls s @ [batch s] \<and>
         heap s' (batch s) = buffer s \<and>
         batch s' \<noteq> batch s \<and> buffer s' = [] \<and> currentSizeBytes s' = 0 \<and>
         heap (run stringify (map Add rs) s') (batch s) = buffer s \<and>
         buffer (run stringify (map Add rs) s') = rs \<and>
         heap (run stringify later s') (batch s) = buffer s"
proof -
  have i: "inv stringify s"
    using assms(1) by (simp add: inv_reachable)
  have ne: "heap s (batch s) \<noteq> []"
    using assms(3) by (simp add: buffer_def)
  note fl = flush_proceeds[OF assms(2) ne]
  have fresh: "batch s \<noteq> nextAddr s"
    using i by (simp add: inv_def)
  have p1: "fst (flush s) = AwaitingDeliver (batch s)"
    by (simp add: fl)
  have p2: "s' = call_onFlush (batch s) swapped"
    using assms(2) ne by (simp add: assms(4,5) flush_def swap_batch_def Let_def)
  have p3: "buffer swapped = []" "currentSizeBytes swapped = 0"
         "onFlushCalls swapped = onFlushCalls s"
    by (simp_all add: assms(4) swap_batch_def Let_def buffer_def)
  have p4: "onFlushCalls s' = onFlushCalls s @ [batch s]"
    by (simp add: assms(5) fl)
  have p5: "heap s' (batch s) = buffer s"
    using fresh by (simp add: assms(5) fl buffer_def)
  have p6: "batch s' \<noteq> batch s" "buffer s' = []" "currentSizeBytes s' = 0"
    using fresh by (simp_all add: assms(5) fl buffer_def)
  have i': "inv stringify s'"
    using i by (simp add: assms(5) inv_flush)
  have mem: "batch s \<in> set (onFlushCalls s')"
    by (simp add: p4)
  have p7: "heap (run stringify (map Add rs) s') (batch s) = buffer s"
    using run_heap_frame[OF i' mem] p5 by simp
  have p8: "buffer (run stringify (map Add rs) s') = rs"
    using p6(2) by (simp add: run_adds buffer_def)
  have p9: "heap (run stringify later s') (batch s) = buffer s"
    using run_heap_frame[OF i' mem] p5 by simp
  show ?thesis
    by (intro conjI) (fact p1 p2 p3 p4 p5 p6 p7 p8 p9)+
qed


theorem swap_before_deliver_witness:
  "\<not> flushing (run unary [Add 5, Add 7] (new_BatchAccumulator test_config)) \<and>
   buffer (run unary [Add 5, Add 7] (new_BatchAccumulator test_config)) = [5, 7] \<and>
   fst (flush (run unary [Add 5, Add 7] (new_BatchAccumulator test_config))) = AwaitingDeliver 0 \<and>
   heap (run unary (map Add [1, 2])
     (snd (flush (run unary [Add 5, Add 7] (new_BatchAccumulator test_config))))) 0 = [5, 7] \<and>
   buffer (run unary (map Add [1, 2])
     (snd (flush (run unary [Add 5, Add 7] (new_BatchAccumulator test_config))))) = [1, 2]"
proof -
  let ?s = "run unary [Add 5, Add 7] (new_BatchAccumulator test_config)"
  have h: "\<not> flushing ?s" "buffer ?s = [5, 7]" "batch ?s = 0"
    by (simp_all add: eval_defs)
  from h have ne: "buffer ?s \<noteq> []"
    by simp
  from swap_before_deliver[OF refl h(1) ne refl refl, where rs = "[1, 2]" and later = "[]"]
  have c: "fst (flush ?s) = AwaitingDeliver (batch ?s)"
    "heap (run unary (map Add [1, 2]) (snd (flush ?s))) (batch ?s) = buffer ?s"
    "buffer (run unary (map Add [1, 2]) (snd (flush ?s))) = [1, 2]"
    by blast+
  from c[unfolded h(2) h(3)] h(1) h(2) show ?thesis
    by blast
qed

section \<open>Failure containment\<close>

text \<open>
  Claim C3. When the promise of \<^verbatim>\<open>onFlush\<close> settles, fulfilled or rejected, the suspended
  \<^verbatim>\<open>flush\<close> resumes, its own promise is fulfilled (a rejection is caught and logged, never
  passed on), \<^verbatim>\<open>flushing\<close> is cleared, and buffer, byte counter and heap are what they
  were: the records of a failed batch are not put back. With a callback that rejects every
  time, each cycle of adding records and awaiting \<^verbatim>\<open>flush\<close> still hands its own batch to
  \<^verbatim>\<open>onFlush\<close>.
\<close>
theorem failure_contained:
  assumes "s = run stringify es (new_BatchAccumulator cfg)"
  shows "(a \<in> set (pending s) \<longrightarrow>
            fst (flush_resume a outcome s) = Fulfilled \<and>
            \<not> flushing (snd (flush_resume a outcome s)) \<and>
            pending (snd (flush_resume a outcome s)) = [] \<and>
            buffer (snd (flush_resume a outcome s)) = buffer s \<and>
            currentSizeBytes (snd (flush_resume a outcome s)) = currentSizeBytes s \<and>
            heap (snd (flush_resume a outcome s)) = heap s \<and>
            onFlushCalls (snd (flush_resume a outcome s)) = onFlushCalls s) \<and>
         (\<not> flushing s \<and> buffer s = [] \<and> (\<forall>c \<in> set cycles. fst c \<noteq> []) \<longrightarrow>
            delivered (fold (rejected_cycle stringify) cycles s) = delivered s @ map fst cycles \<and>
            consoleErrors (fold (rejected_cycle stringify) cycles s) =
              consoleErrors s @ map snd cycles \<and>
            \<not> flushing (fold (rejected_cycle stringify) cycles s) \<and>
            buffer (fold (rejected_cycle stringify) cycles s) = [])"
proof -
  have i: "inv stringify s"
    using assms by (simp add: inv_reachable)
  have resume: "fst (flush_resume a outcome s) = Fulfilled \<and>
            \<not> flushing (snd (flush_resume a outcome s)) \<and>
            pending (snd (flush_resume a outcome s)) = [] \<and>
            buffer (snd (flush_resume a outcome s)) = buffer s \<and>
            currentSizeBytes (snd (flush_resume a outcome s)) = currentSizeBytes s \<and>
            heap (snd (flush_resume a outcome s)) = heap s \<and>
            onFlushCalls (snd (flush_resume a outcome s)) = onFlushCalls s"
    if mem: "a \<in> set (pending s)"
  proof -
    from i have "length (pending s) \<le> 1"
      by (simp add: inv_def)
    with mem have "pending s = [a]"
      by (cases "pending s") auto
    then show ?thesis
      by (cases outcome) (simp_all add: flush_resume_def buffer_def Let_def)
  qed
  have cycles: "delivered (fold (rejected_cycle stringify) cycles s) = delivered s @ map fst cycles \<and>
            consoleErrors (fold (rejected_cycle stringify) cycles s) =
              consoleErrors s @ map snd cycles \<and>
            \<not> flushing (fold (rejected_cycle stringify) cycles s) \<and>
            buffer (fold (rejected_cycle stringify) cycles s) = []"
    if h: "\<not> flushing s" "buffer s = []" "\<forall>c \<in> set cycles. fst c \<noteq> []"
  proof -
    from h(2) have e: "heap s (batch s) = []"
      by (simp add: buffer_def)
    from rejected_cycles[OF i h(1) e h(3)] show ?thesis
      by (simp add: buffer_def)
  qed
  from resume cycles show ?thesis by blast
qed

theorem failure_contained_witness:
  "set (pending (run unary [Add 5, Flush, Add 7] (new_BatchAccumulator test_config))) = {0} \<and>
   fst (flush_resume 0 (Rejected (Error ''Flush failed''))
     (run unary [Add 5, Flush, Add 7] (new_BatchAccumulator test_config))) = Fulfilled \<and>
   buffer (snd (flush_resume 0 (Rejected (Error ''Flush failed''))
     (run unary [Add 5, Flush, Add 7] (new_BatchAccumulator test_config)))) = [7] \<and>
   \<not> flushing (snd (flush_resume 0 (Rejected (Error ''Flush failed''))
     (run unary [Add 5, Flush, Add 7] (new_BatchAccumulator test_config)))) \<and>
   delivered (fold (rejected_cycle unary) [([1], Error ''a''), ([2, 3], Error ''b'')]
     (new_BatchAccumulator test_config)) = [[1], [2, 3]]"
proof -
  let ?s = "run unary [Add 5, Flush, Add 7] (new_BatchAccumulator test_config)"
  let ?cycles = "[([1], Error ''a''), ([2, 3], Error ''b'')] :: (nat list \<times> js_error) list"
  have h: "set (pending ?s) = {0}" "buffer ?s = [7]"
    by (simp_all add: eval_defs)
  then have mem: "0 \<in> set (pending ?s)"
    by simp
  from failure_contained[OF refl, of 0 unary "[Add 5, Flush, Add 7]" test_config
      "Rejected (Error ''Flush failed'')" "[]"] mem
  have c1: "fst (flush_resume 0 (Rejected (Error ''Flush failed'')) ?s) = Fulfilled"
    "buffer (snd (flush_resume 0 (Rejected (Error ''Flush failed'')) ?s)) = buffer ?s"
    "\<not> flushing (snd (flush_resume 0 (Rejected (Error ''Flush failed'')) ?s))"
    by blast+
  have g: "\<not> flushing (new_BatchAccumulator test_config :: nat world)"
    "buffer (new_BatchAccumulator test_config :: nat world) = []"
    "delivered (new_BatchAccumulator test_config :: nat world) = []"
    "\<forall>c \<in> set ?cycles. fst c \<noteq> []"
    by (simp_all add: eval_defs)
  from failure_contained[of "new_BatchAccumulator test_config" unary "[]" test_config 0
      Fulfilled ?cycles] g
  have c2: "delivered (fold (rejected_cycle unary) ?cycles (new_BatchAccumulator test_config)) =
        [[1], [2, 3]]"
    by simp
  from h(1) c1[unfolded h(2)] c2 show ?thesis
    by blast
qed

section \<open>Draining on stop\<close>

text \<open>
  Claim C4. Take a reachable state with no flush in flight and an empty buffer, and add
  one or more records. \<^verbatim>\<open>stop\<close> then clears the timer (no interval is left to fire) and
  calls \<^verbatim>\<open>flush\<close>, which hands all the records, in order, to \<^verbatim>\<open>onFlush\<close> in one call; the
  promise of \<^verbatim>\<open>stop\<close> is the one of that \<^verbatim>\<open>flush\<close> and stays pending while the delivery
  is. Once the delivery has settled, either way, \<^verbatim>\<open>stop\<close> has returned: exactly one batch
  was delivered, it holds the records added, and the buffer is empty.
\<close>
theorem stop_drains:
  assumes "s0 = run stringify es (new_BatchAccumulator cfg)"
    and "\<not> flushing s0" and "buffer s0 = []" and "rs \<noteq> []"
    and "s = run stringify (map Add rs) s0"
    and "done = await_flush outcome (stop s)"
  shows "fst (stop s) = AwaitingDeliver (batch s) \<and>
         timer (snd (stop s)) = None \<and> intervals (snd (stop s)) = {} \<and>
         flushing (snd (stop s)) \<and> pending (snd (stop s)) = [batch s] \<and>
         onFlushCalls (snd (stop s)) = onFlushCalls s0 @ [batch s] \<and>
         heap (snd (stop s)) (batch s) = rs \<and>
         buffer (snd (stop s)) = [] \<and>
         \<not> flushing done \<and> pending done = [] \<and>
         onFlushCalls done = onFlushCalls s0 @ [batch s] \<and>
         delivered done = delivered s0 @ [rs] \<and>
         buffer done = [] \<and> currentSizeBytes done = 0 \<and>
         step stringify (Tick h) done = done"
proof -
  have i0: "inv stringify s0"
    using assms(1) by (simp add: inv_reachable)
  have i: "inv stringify s"
    using i0 by (simp add: assms(5) inv_run)
  have idle: "\<not> flushing s" and buf: "heap s (batch s) = rs" and calls: "onFlushCalls s = onFlushCalls s0"
    using assms(2,3) by (simp_all add: assms(5) run_adds buffer_def)
  have ne: "heap s (batch s) \<noteq> []"
    using buf assms(4) by simp
  have pend: "pending s = []"
    using i idle by (simp add: inv_def)
  have fresh: "batch s \<noteq> nextAddr s"
    using i by (simp add: inv_def)
  note st = stop_idle[OF i idle ne]
  have "map (heap s) (onFlushCalls s0) = map (heap s0) (onFlushCalls s0)"
    using i0 by (intro map_cong) (auto simp: assms(5) run_adds inv_def)
  then have del: "delivered s = delivered s0"
    by (simp add: delivered_def calls)
  have p1: "fst (stop s) = AwaitingDeliver (batch s)"
    by (simp add: st)
  have p2: "timer (snd (stop s)) = None" "intervals (snd (stop s)) = {}"
    "flushing (snd (stop s))" "pending (snd (stop s)) = [batch s]"
    "onFlushCalls (snd (stop s)) = onFlushCalls s0 @ [batch s]"
    by (simp_all add: st pend calls)
  have p3: "heap (snd (stop s)) (batch s) = rs" "buffer (snd (stop s)) = []"
    using fresh buf by (simp_all add: st buffer_def)
  have d: "done = snd (flush_resume (batch s) outcome (snd (stop s)))"
    by (simp add: assms(6) await_flush_def st)
  have q1: "\<not> flushing done" "pending done = []"
    "onFlushCalls done = onFlushCalls s0 @ [batch s]"
    "buffer done = []" "currentSizeBytes done = 0"
    by (cases outcome; simp add: d st flush_resume_def Let_def pend calls buffer_def)+
  have "delivered done = map ((heap s)(nextAddr s := [])) (onFlushCalls s @ [batch s])"
    by (cases outcome; simp add: d st flush_resume_def Let_def delivered_def)
  also have "\<dots> = delivered s @ [buffer s]"
    using i by (rule delivered_after_flush)
  finally have q2: "delivered done = delivered s0 @ [rs]"
    by (simp add: del buf buffer_def)
  have "intervals done = {}"
    by (cases outcome; simp add: d st flush_resume_def Let_def)
  then have q3: "step stringify (Tick h) done = done"
    by simp
  show ?thesis
    by (intro conjI) (fact p1 p2 p3 q1 q2 q3)+
qed

theorem stop_drains_witness:
  "\<not> flushing (new_BatchAccumulator test_config :: nat world) \<and>
   buffer (new_BatchAccumulator test_config :: nat world) = [] \<and>
   fst (stop (run unary (map Add [5, 7]) (new_BatchAccumulator test_config))) = AwaitingDeliver 0 \<and>
   intervals (snd (stop (run unary (map Add [5, 7]) (new_BatchAccumulator test_config)))) = {} \<and>
   delivered (await_flush Fulfilled
     (stop (run unary (map Add [5, 7]) (new_BatchAccumulator test_config)))) = [[5, 7]] \<and>
   buffer (await_flush Fulfilled
     (stop (run unary (map Add [5, 7]) (new_BatchAccumulator test_config)))) = []"
proof -
  let ?init = "new_BatchAccumulator test_config :: nat world"
  let ?s = "run unary (map Add [5, 7]) ?init"
  have h: "\<not> flushing ?init" "buffer ?init = []"
    by (simp_all add: eval_defs)
  have g: "delivered ?init = []" "batch ?s = 0"
    by (simp_all add: eval_defs)
  have ne: "[5, 7] \<noteq> ([] :: nat list)"
    by simp
  from stop_drains[of ?init unary "[]" test_config "[5, 7]" ?s _ Fulfilled, OF _ h ne refl refl]
  have c: "fst (stop ?s) = AwaitingDeliver (batch ?s)"
    "intervals (snd (stop ?s)) = {}"
    "delivered (await_flush Fulfilled (stop ?s)) = delivered ?init @ [[5, 7]]"
    "buffer (await_flush Fulfilled (stop ?s)) = []"
    by simp_all
  from c[unfolded g] h show ?thesis
    by simp
qed

section \<open>The byte threshold\<close>

text \<open>
  Claim C5. \<^verbatim>\<open>needsFlush\<close> holds exactly when the byte counter is at least \<open>0.8\<close> times
  \<^verbatim>\<open>maxBatchSizeBytes\<close>, and \<^verbatim>\<open>add\<close> returns its value in the state with the record added.
  While no flush hands a batch over the counter only grows, so once the predicate holds
  after some events it holds after any more of them: along the adds of one batch it goes
  from false to true at most once, at the add that crosses the boundary, and stays true
  until the next flush.
\<close>
theorem needsFlush_threshold:
  "(needsFlush s \<longleftrightarrow>
      real (currentSizeBytes s) \<ge> 0.8 * real_of_int (maxBatchSizeBytes (config s))) \<and>
   fst (add stringify entry s) = needsFlush (snd (add stringify entry s)) \<and>
   currentSizeBytes s \<le> currentSizeBytes (snd (add stringify entry s)) \<and>
   (onFlushCalls (run stringify (es @ fs) s) = onFlushCalls s \<and> needsFlush (run stringify es s)
      \<longrightarrow> needsFlush (run stringify (es @ fs) s))"
proof -
  have def: "needsFlush s \<longleftrightarrow>
      real (currentSizeBytes s) \<ge> 0.8 * real_of_int (maxBatchSizeBytes (config s))"
    by (simp add: needsFlush_def Let_def mult.commute)
  have ret: "fst (add stringify entry s) = needsFlush (snd (add stringify entry s))"
    by (simp add: add_def Let_def)
  have grow: "currentSizeBytes s \<le> currentSizeBytes (snd (add stringify entry s))"
    by (simp add: add_def Let_def)
  have stay: "needsFlush (run stringify (es @ fs) s)"
    if nf: "onFlushCalls (run stringify (es @ fs) s) = onFlushCalls s"
      and t: "needsFlush (run stringify es s)"
  proof -
    let ?m = "run stringify es s"
    have "onFlushCalls ?m = onFlushCalls s"
      using nf by (rule no_flush_prefix)
    with nf have "onFlushCalls (run stringify fs ?m) = onFlushCalls ?m"
      by (simp add: run_append)
    from run_without_flush[OF this]
    have "currentSizeBytes ?m \<le> currentSizeBytes (run stringify fs ?m)"
      and "config (run stringify fs ?m) = config ?m"
      by simp_all
    with t have "needsFlush (run stringify fs ?m)"
      by (simp add: needsFlush_def Let_def)
    then show ?thesis
      by (simp add: run_append)
  qed
  from def ret grow stay show ?thesis by blast
qed

theorem needsFlush_threshold_witness:
  "\<not> needsFlush (new_BatchAccumulator test_config :: nat world) \<and>
   \<not> needsFlush (run unary [Add 819] (new_BatchAccumulator test_config)) \<and>
   fst (add unary 820 (new_BatchAccumulator test_config)) \<and>
   needsFlush (run unary [Add 820] (new_BatchAccumulator test_config)) \<and>
   onFlushCalls (run unary ([Add 820] @ [Add 1, Add 2]) (new_BatchAccumulator test_config)) =
     onFlushCalls (new_BatchAccumulator test_config :: nat world) \<and>
   needsFlush (run unary ([Add 820] @ [Add 1, Add 2]) (new_BatchAccumulator test_config))"
proof -
  let ?init = "new_BatchAccumulator test_config :: nat world"
  have h: "\<not> needsFlush ?init" "\<not> needsFlush (run unary [Add 819] ?init)"
    "fst (add unary 820 ?init)" "needsFlush (run unary [Add 820] ?init)"
    "onFlushCalls (run unary ([Add 820] @ [Add 1, Add 2]) ?init) = onFlushCalls ?init"
    by (simp_all add: eval_defs)
  from needsFlush_threshold[of ?init unary 0 "[Add 820]" "[Add 1, Add 2]"] h(4,5)
  have "needsFlush (run unary ([Add 820] @ [Add 1, Add 2]) ?init)"
    by blast
  with h show ?thesis
    by blast
qed
section \<open>The byte counter\<close>

text \<open>
  Claim C6. In every reachable state \<^verbatim>\<open>currentSizeBytes\<close> is the sum of the estimated
  sizes of the records in the buffer; \<^verbatim>\<open>add\<close> appends the record and adds exactly its
  estimated size; a call of \<^verbatim>\<open>flush\<close> either changes nothing or leaves, in one step, an
  empty buffer and a counter of \<open>0\<close>.
\<close>
theorem size_tracks_buffer:
  assumes "s = run stringify es (new_BatchAccumulator cfg)"
  shows "currentSizeBytes s = sum_list (map (estimateLogSize stringify) (buffer s)) \<and>
         buffer (snd (add stringify entry s)) = buffer s @ [entry] \<and>
         currentSizeBytes (snd (add stringify entry s)) =
           currentSizeBytes s + estimateLogSize stringify entry \<and>
         (case flush s of
            (Resolved, s') \<Rightarrow> s' = s
          | (AwaitingDeliver a, s') \<Rightarrow> buffer s' = [] \<and> currentSizeBytes s' = 0)"
proof -
  have i: "inv stringify s"
    using assms by (simp add: inv_reachable)
  have sum: "currentSizeBytes s = sum_list (map (estimateLogSize stringify) (buffer s))"
    using i by (simp add: inv_def buffer_def)
  have app: "buffer (snd (add stringify entry s)) = buffer s @ [entry]"
    by (simp add: add_def buffer_def Let_def)
  have inc: "currentSizeBytes (snd (add stringify entry s)) =
           currentSizeBytes s + estimateLogSize stringify entry"
    by (simp add: add_def Let_def)
  have fl: "(case flush s of
            (Resolved, s') \<Rightarrow> s' = s
          | (AwaitingDeliver a, s') \<Rightarrow> buffer s' = [] \<and> currentSizeBytes s' = 0)"
    by (simp add: flush_def swap_batch_def call_onFlush_def buffer_def Let_def)
  from sum app inc fl show ?thesis by blast
qed


theorem size_tracks_buffer_witness:
  "currentSizeBytes (run unary [Add 5, Add 7, Flush, Add 2] (new_BatchAccumulator test_config)) = 2 \<and>
   buffer (run unary [Add 5, Add 7, Flush, Add 2] (new_BatchAccumulator test_config)) = [2] \<and>
   buffer (snd (add unary 4
     (run unary [Add 5, Add 7, Flush, Add 2] (new_BatchAccumulator test_config)))) = [2, 4] \<and>
   currentSizeBytes (snd (add unary 4
     (run unary [Add 5, Add 7, Flush, Add 2] (new_BatchAccumulator test_config)))) = 6"
proof -
  let ?s = "run unary [Add 5, Add 7, Flush, Add 2] (new_BatchAccumulator test_config)"
  have b: "buffer ?s = [2]"
    by (simp add: eval_defs)
  from size_tracks_buffer[OF refl, of unary "[Add 5, Add 7, Flush, Add 2]" test_config 4] b
  show ?thesis
    by (simp add: estimateLogSize_def unary_def)
qed
section \<open>Order preservation\<close>

text \<open>
  Claim C7. Start from a reachable state with an empty buffer and let anything happen that
  does not call \<^verbatim>\<open>onFlush\<close> (no flush in between). Then the buffer holds exactly the
  records added, in the order of the calls of \<^verbatim>\<open>add\<close>; a flush called with no other flush
  in flight and at least one record added does hand a batch over; and the batch the next
  flush hands to \<^verbatim>\<open>onFlush\<close> is exactly that sequence, whatever happens later.
\<close>
theorem order_preserved:
  assumes "s0 = run stringify es (new_BatchAccumulator cfg)"
    and "buffer s0 = []"
    and "s = run stringify mid s0"
    and "onFlushCalls s = onFlushCalls s0"
  shows "buffer s = added mid \<and>
         (\<not> flushing s \<and> added mid \<noteq> [] \<longrightarrow> fst (flush s) = AwaitingDeliver (batch s)) \<and>
         (\<forall>a s'. flush s = (AwaitingDeliver a, s') \<longrightarrow>
            heap s' a = added mid \<and>
            onFlushCalls s' = onFlushCalls s0 @ [a] \<and>
            delivered s' = delivered s0 @ [added mid] \<and>
            heap (run stringify later s') a = added mid)"
proof -
  have i0: "inv stringify s0"
    using assms(1) by (simp add: inv_reachable)
  have i: "inv stringify s"
    using i0 by (simp add: assms(3) inv_run)
  have nf: "onFlushCalls (run stringify mid s0) = onFlushCalls s0"
    using assms(3,4) by simp
  note r = run_without_flush[OF nf]
  have buf: "buffer s = added mid"
    using r assms(2) by (simp add: assms(3) buffer_def)
  have go: "\<not> flushing s \<and> added mid \<noteq> [] \<longrightarrow> fst (flush s) = AwaitingDeliver (batch s)"
    using buf by (simp add: flush_def buffer_def swap_batch_def Let_def)
  have del: "heap s' a = added mid \<and>
            onFlushCalls s' = onFlushCalls s0 @ [a] \<and>
            delivered s' = delivered s0 @ [added mid] \<and>
            heap (run stringify later s') a = added mid"
    if f: "flush s = (AwaitingDeliver a, s')" for a s'
  proof -
    have idle: "\<not> flushing s" and ne: "heap s (batch s) \<noteq> []"
      using f by (auto simp: flush_def split: if_splits)
    note fl = flush_proceeds[OF idle ne]
    from f fl have a: "a = batch s"
      by simp
    from f have s': "s' = snd (flush s)"
      by simp
    have fresh: "batch s \<noteq> nextAddr s"
      using i by (simp add: inv_def)
    have q1: "heap s' a = added mid"
      using fresh buf by (simp add: a s' fl buffer_def)
    have q2: "onFlushCalls s' = onFlushCalls s0 @ [a]"
      by (simp add: a s' fl assms(4))
    have "batch s0 \<notin> set (onFlushCalls s0)"
      using i0 by (auto simp: inv_def)
    then have "map ((heap s0)(batch s0 := heap s0 (batch s0) @ added mid)) (onFlushCalls s0) =
               map (heap s0) (onFlushCalls s0)"
      by (intro map_cong) auto
    then have dd: "delivered s = delivered s0"
      using r by (simp add: delivered_def assms(3) nf)
    have "delivered s' = map ((heap s)(nextAddr s := [])) (onFlushCalls s @ [batch s])"
      by (simp add: delivered_def s' fl)
    also have "\<dots> = delivered s @ [buffer s]"
      using i by (rule delivered_after_flush)
    finally have q3: "delivered s' = delivered s0 @ [added mid]"
      by (simp add: buf dd)
    have i': "inv stringify s'"
      using i by (simp add: s' inv_flush)
    have mem: "a \<in> set (onFlushCalls s')"
      by (simp add: q2)
    have q4: "heap (run stringify later s') a = added mid"
      using run_heap_frame[OF i' mem] q1 by simp
    from q1 q2 q3 q4 show ?thesis by blast
  qed
  from buf go del show ?thesis by blast
qed

theorem order_preserved_witness:
  "buffer (new_BatchAccumulator test_config :: nat world) = [] \<and>
   onFlushCalls (run unary [Add 3, Tick 0, Add 1, Add 2] (new_BatchAccumulator test_config)) = [0] \<and>
   onFlushCalls (run unary [Add 1, Add 2] (run unary [Add 3, Tick 0] (new_BatchAccumulator test_config)))
     = onFlushCalls (run unary [Add 3, Tick 0] (new_BatchAccumulator test_config)) \<and>
   delivered (snd (flush (run unary [Add 1, Add 2, Settle 0 Fulfilled]
     (run unary [Add 3, Tick 0] (new_BatchAccumulator test_config))))) = [[3], [1, 2]]"
proof -
  let ?init = "run unary [Add 3, Tick 0] (new_BatchAccumulator test_config)"
  let ?mid = "[Add 1, Add 2, Settle 0 Fulfilled] :: nat event list"
  let ?s = "run unary ?mid ?init"
  have h: "buffer ?init = []" "onFlushCalls ?s = onFlushCalls ?init" "delivered ?init = [[3]]"
    "buffer (new_BatchAccumulator test_config :: nat world) = []"
    "onFlushCalls (run unary [Add 3, Tick 0, Add 1, Add 2] (new_BatchAccumulator test_config)) = [0]"
    "onFlushCalls (run unary [Add 1, Add 2] ?init) = onFlushCalls ?init"
    by (simp_all add: eval_defs)
  have f: "flush ?s = (AwaitingDeliver (fst (swap_batch ?s)), snd (flush ?s))"
    by (simp add: eval_defs)
  from order_preserved[OF refl h(1) refl h(2), of "[]"] f h(3)
  have "delivered (snd (flush ?s)) = [[3], [1, 2]]"
    by simp
  with h show ?thesis by simp
qed

section \<open>The immediate flush of the ingestion loop\<close>

text \<open>
  Claim C8. A turn of the ingestion loop calls \<^verbatim>\<open>flush\<close> only for an item that parsed and
  transformed, and then exactly when \<^verbatim>\<open>add\<close> returned true and the number of buffered
  records is at least \<^verbatim>\<open>batchSize\<close>. With fewer records than \<^verbatim>\<open>batchSize\<close> the turn ends
  with the record buffered and no call of \<^verbatim>\<open>onFlush\<close>, whatever \<^verbatim>\<open>add\<close> returned. Such a
  buffer is handed over by the next firing of the interval or by \<^verbatim>\<open>stop\<close>, when no flush
  is in flight.
\<close>
theorem immediate_flush_policy:
  "(fst (loop_body JSON_parse stringify cfg item s) = FlushCalled p \<longrightarrow>
      (\<exists>obj entry.
         (case item of Line l \<Rightarrow> JSON_parse l | Parsed v \<Rightarrow> Inr v) = Inr obj \<and>
         transformLog obj cfg = Inr entry \<and>
         fst (add stringify entry s) \<and>
         batchSize cfg \<le> int (size_batch (snd (add stringify entry s))))) \<and>
   ((case item of Line l \<Rightarrow> JSON_parse l | Parsed v \<Rightarrow> Inr v) = Inr obj \<and>
    transformLog obj cfg = Inr entry \<and> s1 = snd (add stringify entry s) \<longrightarrow>
      ((\<exists>p. fst (loop_body JSON_parse stringify cfg item s) = FlushCalled p) \<longleftrightarrow>
         fst (add stringify entry s) \<and> batchSize cfg \<le> int (size_batch s1)) \<and>
      (fst (add stringify entry s) \<and> batchSize cfg \<le> int (size_batch s1) \<longrightarrow>
         loop_body JSON_parse stringify cfg item s =
           (FlushCalled (fst (flush s1)), snd (flush s1))) \<and>
      (int (size_batch s1) < batchSize cfg \<longrightarrow>
         loop_body JSON_parse stringify cfg item s = (NotFlushed, s1) \<and>
         onFlushCalls s1 = onFlushCalls s \<and> buffer s1 = buffer s @ [entry]) \<and>
      (\<not> flushing s1 \<and> h \<in> intervals s1 \<longrightarrow>
         onFlushCalls (step stringify (Tick h) s1) = onFlushCalls s1 @ [batch s1]) \<and>
      (\<not> flushing s1 \<longrightarrow>
         onFlushCalls (step stringify Stop s1) = onFlushCalls s1 @ [batch s1]))"
proof -
  have only: "fst (loop_body JSON_parse stringify cfg item s) = FlushCalled p \<longrightarrow>
      (\<exists>obj entry.
         (case item of Line l \<Rightarrow> JSON_parse l | Parsed v \<Rightarrow> Inr v) = Inr obj \<and>
         transformLog obj cfg = Inr entry \<and>
         fst (add stringify entry s) \<and>
         batchSize cfg \<le> int (size_batch (snd (add stringify entry s))))"
    by (auto simp: loop_body_def Let_def split_beta split: sum.splits if_splits)
  from only loop_body_policy[where item = item and JSON_parse = JSON_parse and obj = obj
      and cfg = cfg and entry = entry and ?s1.0 = s1 and stringify = stringify and s = s and h = h]
  show ?thesis
    by blast
qed

theorem immediate_flush_policy_witness:
  "fst (loop_body sample_parse log_text sample_config (Parsed (Object (sample_log 900 (LevelNumber 30))))
     (new_BatchAccumulator (batch_config.truncate sample_config))) = NotFlushed \<and>
   needsFlush (snd (loop_body sample_parse log_text sample_config
     (Parsed (Object (sample_log 900 (LevelNumber 30))))
     (new_BatchAccumulator (batch_config.truncate sample_config)))) \<and>
   size_batch (snd (loop_body sample_parse log_text sample_config
     (Parsed (Object (sample_log 900 (LevelNumber 30))))
     (new_BatchAccumulator (batch_config.truncate sample_config)))) = 1 \<and>
   onFlushCalls (snd (loop_body sample_parse log_text sample_config
     (Parsed (Object (sample_log 900 (LevelNumber 30))))
     (new_BatchAccumulator (batch_config.truncate sample_config)))) = []"
proof -
  let ?item = "Parsed (Object (sample_log 900 (LevelNumber 30)))"
  let ?init = "new_BatchAccumulator (batch_config.truncate sample_config) :: coralogixLog world"
  let ?entry = "\<lparr>timestamp = Some 1675148539123, applicationName = ''test-app'',
      subsystemName = ''test-subsystem'', severity = Number 3,
      log_text = replicate 900 (CHR ''x''), computerName = Some ''test-server'',
      category = None, className = None, methodName = None, threadId = None\<rparr>"
  let ?s1 = "snd (add log_text ?entry ?init)"
  have h1: "(case ?item of Line l \<Rightarrow> sample_parse l | Parsed v \<Rightarrow> Inr v) =
      Inr (Object (sample_log 900 (LevelNumber 30)))"
    by simp
  have h2: "transformLog (Object (sample_log 900 (LevelNumber 30))) sample_config = Inr ?entry"
    by (simp add: transformLog_def severity_of_number truthy_def
        sample_log_def sample_config_def Let_def)
  have g: "int (size_batch ?s1) < batchSize sample_config" "needsFlush ?s1"
    "size_batch ?s1 = 1" "onFlushCalls ?init = []"
    by (simp_all add: eval_defs sample_config_def batch_config.truncate_def)
  from immediate_flush_policy[where JSON_parse = sample_parse and stringify = log_text
      and cfg = sample_config and item = ?item and s = ?init and h = 0
      and obj = "Object (sample_log 900 (LevelNumber 30))" and entry = ?entry and ?s1.0 = ?s1] h1 h2 g(1)
  have c: "loop_body sample_parse log_text sample_config ?item ?init = (NotFlushed, ?s1)"
    "onFlushCalls ?s1 = onFlushCalls ?init"
    by blast+
  from g c show ?thesis
    by simp
qed

section \<open>Severity mapping\<close>

text \<open>
  Claim C9 says that the transform returns a result for every input and that every level
  not in the table maps to severity \<open>3\<close>. The code attempts this with
  \<^verbatim>\<open>LEVEL_TO_SEVERITY[pinoLog.level] || 3\<close>, commented \<^verbatim>\<open>Default to Info\<close>, but reads the
  level as a property of an object literal: for a level that names a member inherited
  from \<^verbatim>\<open>Object.prototype\<close> the lookup gives that member, which is truthy, and the default
  is not taken. Evaluated below: the levels \<^verbatim>\<open>"toString"\<close> and \<^verbatim>\<open>"__proto__"\<close> give the
  inherited member as severity, where an unknown level such as \<^verbatim>\<open>"info"\<close> or \<open>35\<close> gives
  \<open>3\<close> and the level \<open>50\<close> gives \<open>5\<close>; and a parsed \<^verbatim>\<open>null\<close> makes the transform throw.
\<close>
theorem severity_default_missed:
  "map_sum id severity
     (transformLog (Object (sample_log 4 (LevelKey ''toString''))) sample_config) =
     Inr (Inherited ''toString'') \<and>
   map_sum id severity
     (transformLog (Object (sample_log 4 (LevelKey ''__proto__''))) sample_config) =
     Inr (Inherited ''__proto__'') \<and>
   map_sum id severity
     (transformLog (Object (sample_log 4 (LevelKey ''info''))) sample_config) =
     Inr (Number 3) \<and>
   map_sum id severity
     (transformLog (Object (sample_log 4 (LevelNumber 35))) sample_config) =
     Inr (Number 3) \<and>
   map_sum id severity
     (transformLog (Object (sample_log 4 (LevelNumber 50))) sample_config) =
     Inr (Number 5) \<and>
   transformLog Null sample_config =
     Inl (Error ''TypeError: Cannot read properties of null'')"
  by (simp add: transformLog_def severity_of_def or_3_def get_property_def
      to_property_key_def decimal_def decimal_nat.simps digit_char_def
      LEVEL_TO_SEVERITY_def Object_prototype_def sample_log_def Let_def)

section \<open>Calling stop twice\<close>

text \<open>
  Claim C10 says that a second \<^verbatim>\<open>stop\<close>, called after a first one has completed and with
  no record added in between, does not call \<^verbatim>\<open>onFlush\<close>. That fails when the first
  \<^verbatim>\<open>stop\<close> found a flush in flight: its own \<^verbatim>\<open>flush\<close> returned at the guard, so its promise
  resolved at once with records still buffered, and the second \<^verbatim>\<open>stop\<close>, called after the
  flight has settled, delivers them. Below: \<open>1\<close> is added and the interval fires, which
  starts a flush; \<open>2\<close> is added during the flight; the first \<^verbatim>\<open>stop\<close> resolves at once;
  the delivery of \<open>[1]\<close> settles; nothing is added; and the second \<^verbatim>\<open>stop\<close> calls
  \<^verbatim>\<open>onFlush\<close> with \<open>[2]\<close>.
\<close>
theorem second_stop_counterexample:
  "fst (stop (run unary [Add 1, Tick 0, Add 2] (new_BatchAccumulator test_config))) = Resolved \<and>
   added [Settle 0 Fulfilled :: nat event] = [] \<and>
   timer (run unary [Add 1, Tick 0, Add 2, Stop, Settle 0 Fulfilled]
     (new_BatchAccumulator test_config)) = None \<and>
   onFlushCalls (run unary [Add 1, Tick 0, Add 2, Stop, Settle 0 Fulfilled]
     (new_BatchAccumulator test_config)) = [0] \<and>
   fst (stop (run unary [Add 1, Tick 0, Add 2, Stop, Settle 0 Fulfilled]
     (new_BatchAccumulator test_config))) = AwaitingDeliver 1 \<and>
   onFlushCalls (snd (stop (run unary [Add 1, Tick 0, Add 2, Stop, Settle 0 Fulfilled]
     (new_BatchAccumulator test_config)))) = [0, 1] \<and>
   delivered (snd (stop (run unary [Add 1, Tick 0, Add 2, Stop, Settle 0 Fulfilled]
     (new_BatchAccumulator test_config)))) = [[1], [2]]"
  by (simp add: eval_defs)

text \<open>
  Claim C10, amended. After a first \<^verbatim>\<open>stop\<close>, whatever happens next, \<^verbatim>\<open>this.timer\<close> is
  \<^verbatim>\<open>null\<close> and no interval is left, so a second \<^verbatim>\<open>stop\<close> skips the cancellation and is
  just a call of \<^verbatim>\<open>flush\<close>; it throws nothing and its promise is never rejected. That
  \<^verbatim>\<open>flush\<close> is a no-op, with no call of \<^verbatim>\<open>onFlush\<close>, when the buffer is empty or a
  flush is in flight at the second call. This is so in particular when no flush was in
  flight at the first \<^verbatim>\<open>stop\<close> and no record was added between the two calls.
\<close>
theorem second_stop:
  assumes "s = run stringify es (new_BatchAccumulator cfg)"
    and "t = run stringify mid (snd (stop s))"
  shows "timer t = None \<and> intervals t = {} \<and>
         stop t = flush t \<and>
         fst (flush_resume a outcome (snd (stop t))) = Fulfilled \<and>
         (flushing t \<or> buffer t = [] \<longrightarrow> stop t = (Resolved, t)) \<and>
         (\<not> flushing s \<and> added mid = [] \<longrightarrow>
            buffer t = [] \<and> stop t = (Resolved, t) \<and>
            onFlushCalls (snd (stop t)) = onFlushCalls t)"
proof -
  have i: "inv stringify s"
    using assms(1) by (simp add: inv_reachable)
  have it: "inv stringify t"
    using i by (simp add: assms(2) inv_stop inv_run)
  have p1: "timer t = None"
    by (simp add: assms(2) run_timer_None stop_timer_None)
  have p2: "intervals t = {}"
    using it p1 by (simp add: inv_def)
  have p3: "stop t = flush t"
    using p1 by (rule stop_without_timer)
  have p6: "fst (flush_resume a outcome (snd (stop t))) = Fulfilled"
    by (cases outcome) (simp_all add: flush_resume_def Let_def)
  have p4: "flushing t \<or> buffer t = [] \<longrightarrow> stop t = (Resolved, t)"
    by (simp add: p3 buffer_def flush_noop)
  have p5: "buffer t = [] \<and> stop t = (Resolved, t) \<and>
            onFlushCalls (snd (stop t)) = onFlushCalls t"
    if h: "\<not> flushing s" "added mid = []"
  proof -
    have "heap (snd (stop s)) (batch (snd (stop s))) = []"
      using h(1) by (rule stop_buffer_empty)
    from run_keeps_empty[OF this h(2)] have "buffer t = []"
      by (simp add: assms(2) buffer_def)
    with p4 show ?thesis by simp
  qed
  from p1 p2 p3 p4 p5 p6 show ?thesis by blast
qed

theorem second_stop_witness:
  "\<not> flushing (run unary [Add 5, Add 7] (new_BatchAccumulator test_config)) \<and>
   added [Settle 0 Fulfilled, Tick 0 :: nat event] = [] \<and>
   fst (stop (run unary [Add 5, Add 7] (new_BatchAccumulator test_config))) = AwaitingDeliver 0 \<and>
   timer (run unary [Settle 0 Fulfilled, Tick 0]
     (snd (stop (run unary [Add 5, Add 7] (new_BatchAccumulator test_config))))) = None \<and>
   fst (stop (run unary [Settle 0 Fulfilled, Tick 0]
     (snd (stop (run unary [Add 5, Add 7] (new_BatchAccumulator test_config)))))) = Resolved \<and>
   onFlushCalls (snd (stop (run unary [Settle 0 Fulfilled, Tick 0]
     (snd (stop (run unary [Add 5, Add 7] (new_BatchAccumulator test_config))))))) = [0]"
proof -
  let ?s = "run unary [Add 5, Add 7] (new_BatchAccumulator test_config)"
  let ?mid = "[Settle 0 Fulfilled, Tick 0] :: nat event list"
  let ?t = "run unary ?mid (snd (stop ?s))"
  have h: "\<not> flushing ?s" "added ?mid = []"
    by (simp_all add: eval_defs)
  have g: "fst (stop ?s) = AwaitingDeliver 0" "onFlushCalls ?t = [0]"
    by (simp_all add: eval_defs)
  from second_stop[OF refl refl, where stringify = unary and es = "[Add 5, Add 7]"
      and cfg = test_config and mid = ?mid] h
  have c: "timer ?t = None" "stop ?t = (Resolved, ?t)"
    "onFlushCalls (snd (stop ?t)) = onFlushCalls ?t"
    by blast+
  from c(2) have c2: "fst (stop ?t) = Resolved"
    by simp
  from h g(1) c(1) c2 c(3)[unfolded g(2)] show ?thesis
    by blast
qed

end
